theory Spec2Isabelle
  imports Main "HOL-Library.AList"
begin

section \<open>Values of the host language\<close>

text \<open>
  The orchestrator is written in TypeScript. A value of type \<^verbatim>\<open>string | undefined\<close> is a
  \<^typ>\<open>string option\<close>, with \<^term>\<open>None\<close> for \<^verbatim>\<open>undefined\<close>. The source tests such values
  for truthiness (\<^verbatim>\<open>!capturedSessionId\<close>, \<^verbatim>\<open>a || b\<close>): \<^verbatim>\<open>undefined\<close> and the empty string are
  falsy, every other string is truthy.
\<close>

definition truthy :: "string option \<Rightarrow> bool" where
  "truthy v = (case v of None \<Rightarrow> False | Some s \<Rightarrow> s \<noteq> [])"

text \<open>\<^verbatim>\<open>a || b\<close> for an optional string \<^verbatim>\<open>a\<close> and a string \<^verbatim>\<open>b\<close>.\<close>

definition or_else :: "string option \<Rightarrow> string \<Rightarrow> string" where
  "or_else a b = (case a of None \<Rightarrow> b | Some s \<Rightarrow> if s = [] then b else s)"

text \<open>A template literal prints \<^verbatim>\<open>undefined\<close> as the nine letters of its name.\<close>

definition template :: "string option \<Rightarrow> string" where
  "template v = (case v of None \<Rightarrow> ''undefined'' | Some s \<Rightarrow> s)"

text \<open>
  Tool inputs are \<^verbatim>\<open>Record<string, unknown>\<close>: arbitrary JSON-like values that the
  orchestrator never inspects.
\<close>

datatype jsval =
    JNull
  | JBool bool
  | JNum int
  | JStr string
  | JArr "jsval list"
  | JObj "(string \<times> jsval) list"

section \<open>Tool classifier (types.ts)\<close>

datatype ToolType =
    Read | Write | Edit | Bash | Grep | Glob | LS | MultiEdit | NotebookRead
  | NotebookEdit | WebFetch | TodoRead | TodoWrite | WebSearch | Task | MCPTool

text \<open>The string value of each member of the \<^verbatim>\<open>ToolType\<close> enum.\<close>

fun tool_name :: "ToolType \<Rightarrow> string" where
  "tool_name Read = ''Read''"
| "tool_name Write = ''Write''"
| "tool_name Edit = ''Edit''"
| "tool_name Bash = ''Bash''"
| "tool_name Grep = ''Grep''"
| "tool_name Glob = ''Glob''"
| "tool_name LS = ''LS''"
| "tool_name MultiEdit = ''MultiEdit''"
| "tool_name NotebookRead = ''NotebookRead''"
| "tool_name NotebookEdit = ''NotebookEdit''"
| "tool_name WebFetch = ''WebFetch''"
| "tool_name TodoRead = ''TodoRead''"
| "tool_name TodoWrite = ''TodoWrite''"
| "tool_name WebSearch = ''WebSearch''"
| "tool_name Task = ''Task''"
| "tool_name MCPTool = ''MCPTool''"

text \<open>The array \<^verbatim>\<open>ApprovableTools\<close>, in the order of the source (\<^verbatim>\<open>Bash\<close> is listed twice).\<close>

definition ApprovableTools :: "string list" where
  "ApprovableTools =
     map tool_name [Write, Edit, Bash, MultiEdit, Glob, WebSearch, WebFetch, Bash, MCPTool]"

text \<open>\<^verbatim>\<open>Array.prototype.includes\<close> on an array of strings: a scan with strict equality.\<close>

primrec array_includes :: "string list \<Rightarrow> string \<Rightarrow> bool" where
  "array_includes [] v = False"
| "array_includes (x # xs) v = (if x = v then True else array_includes xs v)"

definition isApprovableTool :: "string \<Rightarrow> bool" where
  "isApprovableTool v = array_includes ApprovableTools v"

section \<open>Engine events and normalized messages\<close>

text \<open>
  The engine's events are the members of the SDK's \<^verbatim>\<open>SDKMessage\<close> union, of which the
  orchestrator reads the tag, the subtype, the session identifier and the message content.
  A content block is an object with a \<^verbatim>\<open>type\<close> tag; the content of a user turn is a string
  or an array of blocks, the content of an assistant turn an array of blocks. The wrapped
  \<^verbatim>\<open>message\<close> object of an assistant or user event is always present (an object, hence
  truthy), so the guards \<^verbatim>\<open>&& message.message\<close> hold by type.
\<close>

record block =
  block_type :: string
  block_fields :: "(string \<times> jsval) list"

datatype user_content = ContentString string | ContentArray "block list"

datatype SDKMessage =
    SDKAssistantMessage "block list" string        \<comment> \<open>\<^verbatim>\<open>message.content\<close>, \<^verbatim>\<open>session_id\<close>\<close>
  | SDKUserMessage user_content                    \<comment> \<open>\<^verbatim>\<open>message.content\<close>\<close>
  | SDKResultMessage string                        \<comment> \<open>\<^verbatim>\<open>subtype\<close>\<close>
  | SDKSystemMessage string "string option"        \<comment> \<open>\<^verbatim>\<open>subtype\<close>, \<^verbatim>\<open>session_id\<close>\<close>
  | SDKOtherMessage string                         \<comment> \<open>any other tag\<close>

text \<open>The object \<^verbatim>\<open>convertedMessage\<close>; only the assistant shape has a \<^verbatim>\<open>session_id\<close>.\<close>

record converted =
  conv_type :: string
  conv_content :: "block list"
  conv_session_id :: "string option"

text \<open>The \<^verbatim>\<open>data\<close> of a response: a converted message, or a bare content array.\<close>

datatype payload = Converted converted | ContentOnly "block list"

record PermissionPayload =
  toolName :: string
  input :: jsval
  requestId :: string

datatype ws_type =
    session_created | claude_response | claude_error | claude_complete | claude_output
  | claude_interactive_prompt | claude_status | session_aborted | cursor_system | cursor_user
  | cursor_tool_use | cursor_error | cursor_result | cursor_output | permission_request

text \<open>
  \<^verbatim>\<open>WebSocketMessage\<close>. A field that is \<^verbatim>\<open>undefined\<close> is \<^term>\<open>None\<close>; JSON serialisation
  drops such fields and parsing gives them back as \<^verbatim>\<open>undefined\<close>.
\<close>

record WebSocketMessage =
  wtype :: ws_type
  sessionId :: "string option"
  data :: "payload option"
  permissionPayload :: "PermissionPayload option"
  error :: "string option"
  exitCode :: "int option"
  isNewSession :: "bool option"

definition message :: "ws_type \<Rightarrow> string option \<Rightarrow> WebSocketMessage" where
  "message t sid =
     \<lparr>wtype = t, sessionId = sid, data = None, permissionPayload = None, error = None,
      exitCode = None, isNewSession = None\<rparr>"

datatype PermissionResult = Allow jsval | Deny string

section \<open>Permission broker (spawnClaude.ts, module state)\<close>

text \<open>
  The value type of the map \<^verbatim>\<open>pendingPermissionRequests\<close>. The resolver of the promise and
  the timer are objects of the runtime; each is named by a handle.
\<close>

record pending =
  p_requestId :: string
  p_sessionId :: string
  p_resolve :: nat
  p_timeout :: nat

text \<open>
  A timer armed by \<^verbatim>\<open>setTimeout\<close>: the time at which it is due, and the two variables its
  callback closes over (\<^verbatim>\<open>compositeKey\<close> and \<^verbatim>\<open>resolve\<close>).
\<close>

record timer =
  due :: nat
  timer_key :: string
  timer_resolve :: nat

text \<open>
  The broker: the map \<^verbatim>\<open>pendingPermissionRequests\<close> as an association list in insertion
  order (the order in which \<^verbatim>\<open>for ... of\<close> visits it), the armed timers of the event loop in
  the order they were armed, the calls made so far to promise resolvers (oldest first), a
  millisecond clock and the next unused handle.

  \<^verbatim>\<open>Map.prototype.set\<close> is \<^const>\<open>AList.update\<close> (replace the value of a key that is
  present, else append), \<^verbatim>\<open>Map.prototype.delete\<close> is \<^const>\<open>AList.delete\<close> and
  \<^verbatim>\<open>Map.prototype.get\<close> is \<^const>\<open>map_of\<close>.
\<close>

record broker =
  pendingPermissionRequests :: "(string \<times> pending) list"
  timers :: "(nat \<times> timer) list"
  resolved :: "(nat \<times> PermissionResult) list"
  clock :: nat
  next_handle :: nat

definition empty_broker :: broker where
  "empty_broker =
     \<lparr>pendingPermissionRequests = [], timers = [], resolved = [], clock = 0, next_handle = 0\<rparr>"

text \<open>Calling the resolver \<^verbatim>\<open>resolve(result)\<close> of promise \<open>p\<close>.\<close>

definition call_resolve :: "nat \<Rightarrow> PermissionResult \<Rightarrow> broker \<Rightarrow> broker" where
  "call_resolve p r b = b\<lparr>resolved := resolved b @ [(p, r)]\<rparr>"

text \<open>
  A promise takes the value of the first call to its resolver; later calls are ignored by
  the runtime.
\<close>

definition decision :: "broker \<Rightarrow> nat \<Rightarrow> PermissionResult option" where
  "decision b p = map_of (resolved b) p"

definition clearTimeout :: "nat \<Rightarrow> broker \<Rightarrow> broker" where
  "clearTimeout t b = b\<lparr>timers := AList.delete t (timers b)\<rparr>"

text \<open>The loop of \<^verbatim>\<open>handlePermissionResponse\<close>: the first entry matching both fields.\<close>

fun find_pending :: "(string \<times> pending) list \<Rightarrow> string \<Rightarrow> string \<Rightarrow> (string \<times> pending) option" where
  "find_pending [] sid rid = None"
| "find_pending ((key, p) # rest) sid rid =
     (if p_sessionId p = sid \<and> p_requestId p = rid then Some (key, p)
      else find_pending rest sid rid)"

definition handlePermissionResponse ::
  "string \<Rightarrow> string \<Rightarrow> PermissionResult \<Rightarrow> broker \<Rightarrow> bool \<times> broker" where
  "handlePermissionResponse sid rid response b =
     (case find_pending (pendingPermissionRequests b) sid rid of
        Some (key, p) \<Rightarrow>
          (let b1 = clearTimeout (p_timeout p) b;
               b2 = call_resolve (p_resolve p) response b1;
               b3 = b2\<lparr>pendingPermissionRequests :=
                         AList.delete key (pendingPermissionRequests b2)\<rparr>
           in (True, b3))
      | None \<Rightarrow> (False, b))"

text \<open>The window of the reference deployment, in milliseconds.\<close>

definition approval_timeout :: nat where
  "approval_timeout = 100000"

text \<open>The callback given to \<^verbatim>\<open>setTimeout\<close>.\<close>

definition timeout_callback :: "timer \<Rightarrow> broker \<Rightarrow> broker" where
  "timeout_callback tm b =
     call_resolve (timer_resolve tm) (Deny ''Permission request timed out'')
       (b\<lparr>pendingPermissionRequests :=
            AList.delete (timer_key tm) (pendingPermissionRequests b)\<rparr>)"

text \<open>
  The executor of the promise returned by \<^verbatim>\<open>canUseTool\<close>: it arms the timer and registers
  the entry. The promise and its timer get the next unused handle.
\<close>

definition register :: "string \<Rightarrow> string \<Rightarrow> string \<Rightarrow> broker \<Rightarrow> nat \<times> broker" where
  "register compositeKey rid sid b =
     (let h = next_handle b;
          b1 = b\<lparr>next_handle := Suc h\<rparr>;
          b2 = b1\<lparr>timers := timers b1 @
                 [(h, \<lparr>due = clock b1 + approval_timeout, timer_key = compositeKey,
                       timer_resolve = h\<rparr>)]\<rparr>;
          b3 = b2\<lparr>pendingPermissionRequests :=
                    AList.update compositeKey
                      \<lparr>p_requestId = rid, p_sessionId = sid, p_resolve = h, p_timeout = h\<rparr>
                      (pendingPermissionRequests b2)\<rparr>
      in (h, b3))"

text \<open>
  The event loop. A timer that is armed and due runs its callback once and is disarmed; a
  timer that was cleared does nothing. When time passes, the timers that have become due
  run in the order they were armed, which is the order of their due times, as every timer
  has the same delay.
\<close>

definition fire :: "nat \<Rightarrow> broker \<Rightarrow> broker" where
  "fire t b =
     (case map_of (timers b) t of
        None \<Rightarrow> b
      | Some tm \<Rightarrow>
          if due tm \<le> clock b
          then timeout_callback tm (b\<lparr>timers := AList.delete t (timers b)\<rparr>)
          else b)"

definition elapse :: "nat \<Rightarrow> broker \<Rightarrow> broker" where
  "elapse d b = (let b1 = b\<lparr>clock := clock b + d\<rparr> in fold fire (map fst (timers b1)) b1)"

section \<open>Session orchestrator (spawnClaude.ts)\<close>

text \<open>
  The state one invocation of \<^verbatim>\<open>spawnClaude\<close> works on: the module-level map
  \<^verbatim>\<open>activeClaudeControllers\<close> (session key to the handle of an \<^verbatim>\<open>AbortController\<close>), the
  handles whose \<^verbatim>\<open>abort()\<close> was called, the broker, the messages delivered to the sink
  \<^verbatim>\<open>output\<close> so far (oldest first), and the two local variables of the invocation.
\<close>

record state =
  activeClaudeControllers :: "(string \<times> nat) list"
  aborted :: "nat list"
  permissions :: broker
  delivered :: "WebSocketMessage list"
  capturedSessionId :: "string option"
  sessionCreatedSent :: bool

text \<open>
  \<^verbatim>\<open>sendMessage\<close> wraps the message in the \<^verbatim>\<open>claude-chat\<close> envelope, serialises it and hands
  it to the sink (a push for a socket, a newline-terminated record for a stream). Either
  way, the sink receives the message next.
\<close>

definition sendMessage :: "WebSocketMessage \<Rightarrow> state \<Rightarrow> state" where
  "sendMessage m s = s\<lparr>delivered := delivered s @ [m]\<rparr>"

text \<open>What the callback \<^verbatim>\<open>canUseTool\<close> returns: a settled promise, or one that is pending.\<close>

datatype tool_decision = Returned PermissionResult | Awaiting nat

text \<open>
  \<^verbatim>\<open>canUseTool\<close>, a closure over \<^verbatim>\<open>resume\<close>, \<^verbatim>\<open>capturedSessionId\<close> and \<^verbatim>\<open>output\<close>. The
  argument \<open>uuid\<close> is the value \<^verbatim>\<open>uuidv4()\<close> returns in this call.
\<close>

definition canUseTool ::
  "string option \<Rightarrow> string \<Rightarrow> jsval \<Rightarrow> string \<Rightarrow> state \<Rightarrow> tool_decision \<times> state" where
  "canUseTool resume tool inp uuid s =
     (if isApprovableTool tool then
        if \<not> truthy (capturedSessionId s) then
          (Returned (Deny ''Cannot approve permission without a session ID''), s)
        else
          let compositeKey = template resume @ '':'' @ uuid;
              payload = \<lparr>toolName = tool, input = inp, requestId = uuid\<rparr>;
              s1 = sendMessage
                     ((message permission_request (capturedSessionId s))
                        \<lparr>permissionPayload := Some payload\<rparr>) s;
              (h, b) = register compositeKey uuid (or_else (capturedSessionId s1) [])
                         (permissions s1)
          in (Awaiting h, s1\<lparr>permissions := b\<rparr>)
      else (Returned (Allow inp), s))"

text \<open>The conversion of an engine event at the head of the loop body.\<close>

definition convert :: "SDKMessage \<Rightarrow> converted option" where
  "convert m =
     (case m of
        SDKAssistantMessage content sid \<Rightarrow>
          Some \<lparr>conv_type = ''assistant'', conv_content = content, conv_session_id = Some sid\<rparr>
      | SDKUserMessage userContent \<Rightarrow>
          (case userContent of
             ContentString text \<Rightarrow> None
           | ContentArray [] \<Rightarrow> None
           | ContentArray (firstContent # rest) \<Rightarrow>
               if block_type firstContent = ''tool_result''
               then Some \<lparr>conv_type = ''tool_result'', conv_content = firstContent # rest,
                          conv_session_id = None\<rparr>
               else Some \<lparr>conv_type = ''tool_result'', conv_content = firstContent # rest,
                          conv_session_id = None\<rparr>)
      | SDKResultMessage subtype \<Rightarrow> None
      | SDKSystemMessage subtype sid \<Rightarrow> None
      | SDKOtherMessage tag \<Rightarrow> None)"

text \<open>
  Sending the converted message. The content of an assistant message is an array, which is
  truthy even when empty, so it is always sent a second time.
\<close>

definition send_converted :: "converted option \<Rightarrow> state \<Rightarrow> state" where
  "send_converted c s =
     (case c of
        None \<Rightarrow> s
      | Some convertedMessage \<Rightarrow>
          let s1 = sendMessage
                     ((message claude_response (capturedSessionId s))
                        \<lparr>data := Some (Converted convertedMessage)\<rparr>) s
          in if conv_type convertedMessage = ''assistant''
             then sendMessage
                    ((message claude_response (capturedSessionId s1))
                       \<lparr>data := Some (ContentOnly (conv_content convertedMessage))\<rparr>) s1
             else s1)"

text \<open>The block guarded by \<^verbatim>\<open>message.type === 'system' && message.subtype === 'init'\<close>.\<close>

definition handle_init :: "string \<Rightarrow> nat \<Rightarrow> string option \<Rightarrow> state \<Rightarrow> state" where
  "handle_init processKey controller sdkSessionId s =
     (if truthy sdkSessionId \<and> sdkSessionId \<noteq> capturedSessionId s then
        let s1 = s\<lparr>capturedSessionId := sdkSessionId\<rparr>;
            s2 = (if Some processKey \<noteq> capturedSessionId s1 \<and> truthy (capturedSessionId s1)
                  then s1\<lparr>activeClaudeControllers :=
                            AList.update (the (capturedSessionId s1)) controller
                              (AList.delete processKey (activeClaudeControllers s1))\<rparr>
                  else s1)
        in if \<not> sessionCreatedSent s2
           then sendMessage (message session_created (capturedSessionId s2))
                  (s2\<lparr>sessionCreatedSent := True\<rparr>)
           else s2
      else if truthy sdkSessionId then s\<lparr>capturedSessionId := sdkSessionId\<rparr>
      else s)"

text \<open>The block guarded by \<^verbatim>\<open>message.type === 'result'\<close>.\<close>

definition handle_result :: "string \<Rightarrow> string \<Rightarrow> string \<Rightarrow> state \<Rightarrow> state" where
  "handle_result command processKey subtype s =
     (let finalSessionId = or_else (capturedSessionId s) processKey;
          s1 = s\<lparr>activeClaudeControllers :=
                   AList.delete finalSessionId (activeClaudeControllers s)\<rparr>;
          code = (if subtype = ''success'' then 0 else 1)
      in sendMessage
           ((message claude_complete (capturedSessionId s1))
              \<lparr>exitCode := Some code,
               isNewSession := Some (\<not> truthy (capturedSessionId s1) \<and> command \<noteq> [])\<rparr>) s1)"

text \<open>The body of the \<^verbatim>\<open>for await\<close> loop, for one event.\<close>

definition on_message :: "string \<Rightarrow> string \<Rightarrow> nat \<Rightarrow> SDKMessage \<Rightarrow> state \<Rightarrow> state" where
  "on_message command processKey controller m s =
     (let s1 = send_converted (convert m) s;
          s2 = (case m of
                  SDKSystemMessage subtype sdkSessionId \<Rightarrow>
                    if subtype = ''init'' then handle_init processKey controller sdkSessionId s1
                    else s1
                | _ \<Rightarrow> s1)
      in case m of
           SDKResultMessage subtype \<Rightarrow> handle_result command processKey subtype s2
         | _ \<Rightarrow> s2)"

text \<open>
  What the engine does during one invocation: it yields an event to the loop, or it calls
  \<^verbatim>\<open>canUseTool\<close> (with the identifier \<^verbatim>\<open>uuidv4()\<close> gives that call). The stream then is
  exhausted, or it throws an error with the given message.
\<close>

datatype engine_step = Yields SDKMessage | Asks string jsval string

datatype stream_end = Exhausted | Throws string

fun consume ::
  "string \<Rightarrow> string option \<Rightarrow> string \<Rightarrow> nat \<Rightarrow> engine_step list \<Rightarrow> state \<Rightarrow> state" where
  "consume command resume processKey controller [] s = s"
| "consume command resume processKey controller (Yields m # rest) s =
     consume command resume processKey controller rest
       (on_message command processKey controller m s)"
| "consume command resume processKey controller (Asks tool inp uuid # rest) s =
     consume command resume processKey controller rest
       (snd (canUseTool resume tool inp uuid s))"

text \<open>
  \<^verbatim>\<open>spawnClaude(command, {resume, ...}, output)\<close>. The environment supplies the handle of
  the new \<^verbatim>\<open>AbortController\<close>, the strings \<open>now\<close> and \<open>now'\<close> that \<^verbatim>\<open>Date.now().toString()\<close>
  gives at the start and inside the \<^verbatim>\<open>catch\<close> block, and the behaviour of the engine. The
  result is \<^term>\<open>Inr\<close> of the returned session identifier, or \<^term>\<open>Inl\<close> of the error that is
  thrown again. The statements before the loop initialise the two local variables and
  register the controller under \<^verbatim>\<open>processKey\<close>.
\<close>

definition begin_invocation :: "string option \<Rightarrow> nat \<Rightarrow> string \<Rightarrow> state \<Rightarrow> state" where
  "begin_invocation resume controller now s0 =
     (let s1 = s0\<lparr>capturedSessionId := resume, sessionCreatedSent := False\<rparr>;
          processKey = or_else (capturedSessionId s1) now
      in s1\<lparr>activeClaudeControllers :=
               AList.update processKey controller (activeClaudeControllers s1)\<rparr>)"

definition spawnClaude ::
  "string \<Rightarrow> string option \<Rightarrow> nat \<Rightarrow> string \<Rightarrow> string \<Rightarrow> engine_step list \<Rightarrow> stream_end \<Rightarrow>
   state \<Rightarrow> (string + string option) \<times> state" where
  "spawnClaude command resume controller now now' steps ending s0 =
     (let processKey = or_else resume now;
          s2 = begin_invocation resume controller now s0;
          s3 = consume command resume processKey controller steps s2
      in case ending of
           Exhausted \<Rightarrow> (Inr (capturedSessionId s3), s3)
         | Throws msg \<Rightarrow>
             let finalSessionId = or_else (capturedSessionId s3) now';
                 s4 = s3\<lparr>activeClaudeControllers :=
                          AList.delete finalSessionId (activeClaudeControllers s3)\<rparr>;
                 s5 = sendMessage
                        ((message claude_error (capturedSessionId s4))
                           \<lparr>error := Some (if msg = [] then ''Unknown error occurred'' else msg)\<rparr>)
                        s4;
                 s6 = sendMessage
                        ((message claude_complete (capturedSessionId s5))
                           \<lparr>exitCode := Some 1,
                            isNewSession :=
                              Some (\<not> truthy (capturedSessionId s5) \<and> command \<noteq> [])\<rparr>) s5
             in (Inl msg, s6))"

definition abortClaudeSession :: "string \<Rightarrow> state \<Rightarrow> bool \<times> state" where
  "abortClaudeSession sid s =
     (case map_of (activeClaudeControllers s) sid of
        Some controller \<Rightarrow>
          (True, s\<lparr>aborted := aborted s @ [controller],
                   activeClaudeControllers := AList.delete sid (activeClaudeControllers s)\<rparr>)
      | None \<Rightarrow> (False, s))"

section \<open>Headless collector (spawnClaude.ts)\<close>

record HeadlessResult =
  h_sessionId :: string
  h_messages :: "(string \<times> payload) list"
  h_exitCode :: int

text \<open>The three variables the collector's \<^verbatim>\<open>write\<close> handler updates.\<close>

record collector =
  messages :: "(string \<times> payload) list"
  finalSessionId :: "string option"
  finalExitCode :: int

definition new_collector :: collector where
  "new_collector = \<lparr>messages = [], finalSessionId = None, finalExitCode = 0\<rparr>"

text \<open>
  The handler for one record. Each message is one line of JSON, and parsing gives the
  message back; its \<^verbatim>\<open>data\<close>, an object or an array, is truthy whenever it is present.
\<close>

definition collect :: "WebSocketMessage \<Rightarrow> collector \<Rightarrow> collector" where
  "collect msg c =
     (let c1 = (if wtype msg = session_created \<and> truthy (sessionId msg)
                then c\<lparr>finalSessionId := sessionId msg\<rparr> else c);
          c2 = (if wtype msg = claude_complete
                then let c' = c1\<lparr>finalExitCode :=
                                   (case exitCode msg of None \<Rightarrow> 0 | Some n \<Rightarrow> n)\<rparr>
                     in if truthy (sessionId msg) then c'\<lparr>finalSessionId := sessionId msg\<rparr>
                        else c'
                else c1)
      in case data msg of
           Some d \<Rightarrow>
             if wtype msg = claude_response
             then c2\<lparr>messages := messages c2 @ [(''claude-response'', d)]\<rparr> else c2
         | None \<Rightarrow> c2)"

text \<open>
  \<^verbatim>\<open>spawnClaudeHeadless\<close>: it runs \<^const>\<open>spawnClaude\<close> on a new collector; the collector has
  handled every message by the time the invocation returns or throws.
\<close>

definition spawnClaudeHeadless ::
  "string \<Rightarrow> string option \<Rightarrow> nat \<Rightarrow> string \<Rightarrow> string \<Rightarrow> engine_step list \<Rightarrow> stream_end \<Rightarrow>
   state \<Rightarrow> (string + HeadlessResult) \<times> state" where
  "spawnClaudeHeadless command resume controller now now' steps ending s0 =
     (let (r, s) = spawnClaude command resume controller now now' steps ending
                     (s0\<lparr>delivered := []\<rparr>);
          c = fold collect (delivered s) new_collector
      in case r of
           Inr sid \<Rightarrow>
             let final = (if \<not> truthy (finalSessionId c) \<and> truthy sid then sid
                          else finalSessionId c)
             in (Inr \<lparr>h_sessionId = or_else final [], h_messages = messages c,
                      h_exitCode = finalExitCode c\<rparr>, s)
         | Inl err \<Rightarrow>
             (Inr \<lparr>h_sessionId = or_else (finalSessionId c) [], h_messages = messages c,
                   h_exitCode = (if finalExitCode c = 0 then 1 else finalExitCode c)\<rparr>, s))"

section \<open>What happens to the broker\<close>

text \<open>
  The broker of a process starts empty and is changed in three ways only: a call of
  \<^verbatim>\<open>canUseTool\<close> for an approval-requiring tool registers a request (for an invocation with
  the given \<^verbatim>\<open>resume\<close> option and known session identifier, under the identifier that
  \<^verbatim>\<open>uuidv4()\<close> gives), a caller answers with \<^verbatim>\<open>handlePermissionResponse\<close>, or time passes
  and the event loop runs the timers that are due.
\<close>

datatype broker_event =
    Request "string option" string string
  | Response string string PermissionResult
  | Elapse nat

fun broker_step :: "broker_event \<Rightarrow> broker \<Rightarrow> broker" where
  "broker_step (Request resume sid uuid) b =
     snd (register (template resume @ '':'' @ uuid) uuid sid b)"
| "broker_step (Response sid rid r) b = snd (handlePermissionResponse sid rid r b)"
| "broker_step (Elapse d) b = elapse d b"

text \<open>The broker after the given events, oldest first.\<close>

definition broker_run :: "broker_event list \<Rightarrow> broker" where
  "broker_run evs = fold broker_step evs empty_broker"

text \<open>The identifiers \<^verbatim>\<open>uuidv4()\<close> gave to the requests among the events.\<close>

fun requested :: "broker_event list \<Rightarrow> string list" where
  "requested [] = []"
| "requested (Request resume sid uuid # evs) = uuid # requested evs"
| "requested (ev # evs) = requested evs"

text \<open>The decisions with which callers answered the pair \<open>(sid, rid)\<close> among the events.\<close>

fun answers :: "string \<Rightarrow> string \<Rightarrow> broker_event list \<Rightarrow> PermissionResult list" where
  "answers sid rid [] = []"
| "answers sid rid (Response sid' rid' r # evs) =
     (if sid' = sid \<and> rid' = rid then r # answers sid rid evs else answers sid rid evs)"
| "answers sid rid (ev # evs) = answers sid rid evs"

text \<open>The time that passes during the events.\<close>

fun elapsed :: "broker_event list \<Rightarrow> nat" where
  "elapsed [] = 0"
| "elapsed (Elapse d # evs) = d + elapsed evs"
| "elapsed (ev # evs) = elapsed evs"

section \<open>Notions used to state the properties\<close>

text \<open>A process in which nothing is registered and nothing was delivered.\<close>

definition idle :: state where
  "idle =
     \<lparr>activeClaudeControllers = [], aborted = [], permissions = empty_broker, delivered = [],
      capturedSessionId = None, sessionCreatedSent = False\<rparr>"

text \<open>The payloads of the \<^verbatim>\<open>claude-response\<close> messages among the given ones, in order.\<close>

definition response_payloads :: "WebSocketMessage list \<Rightarrow> (string \<times> payload) list" where
  "response_payloads ms =
     concat (map (\<lambda>m. if wtype m = claude_response
                        then (case data m of None \<Rightarrow> [] | Some d \<Rightarrow> [(''claude-response'', d)])
                        else []) ms)"

text \<open>
  The exit code of the last \<^verbatim>\<open>claude-complete\<close> message among the given ones, if there is
  one (a completion without an exit code counts as 0, as the collector reads it).
\<close>

definition observed_exit_code :: "WebSocketMessage list \<Rightarrow> int option" where
  "observed_exit_code ms =
     (case rev (filter (\<lambda>m. wtype m = claude_complete) ms) of
        [] \<Rightarrow> None
      | m # _ \<Rightarrow> Some (case exitCode m of None \<Rightarrow> 0 | Some n \<Rightarrow> n))"

text \<open>The number of \<^verbatim>\<open>session-created\<close> messages among the given ones.\<close>

definition session_created_count :: "WebSocketMessage list \<Rightarrow> nat" where
  "session_created_count ms = length (filter (\<lambda>m. wtype m = session_created) ms)"

text \<open>
  The sink has received one \<^verbatim>\<open>session-created\<close> message if the flag
  \<^verbatim>\<open>sessionCreatedSent\<close> is set, and none otherwise.
\<close>

definition announced :: "state \<Rightarrow> bool" where
  "announced s = (session_created_count (delivered s) = (if sessionCreatedSent s then 1 else 0))"

text \<open>
  The state of the broker is consistent: keys, timer handles and resolved promises are each
  listed once; an entry or an armed timer belongs to a promise that has a handle already
  given out and whose resolver was not called; the timer of an entry, while armed, closes
  over the key of the entry; and no two entries share a promise.
\<close>

definition broker_inv :: "broker \<Rightarrow> bool" where
  "broker_inv b \<longleftrightarrow>
     distinct (map fst (pendingPermissionRequests b)) \<and>
     distinct (map fst (timers b)) \<and>
     distinct (map fst (resolved b)) \<and>
     (\<forall>k e. (k, e) \<in> set (pendingPermissionRequests b) \<longrightarrow>
        p_resolve e = p_timeout e \<and> p_timeout e < next_handle b \<and>
        p_timeout e \<notin> fst ` set (resolved b)) \<and>
     (\<forall>t tm. (t, tm) \<in> set (timers b) \<longrightarrow>
        timer_resolve tm = t \<and> t < next_handle b \<and> t \<notin> fst ` set (resolved b)) \<and>
     (\<forall>p r. (p, r) \<in> set (resolved b) \<longrightarrow> p < next_handle b) \<and>
     (\<forall>k e tm. (k, e) \<in> set (pendingPermissionRequests b) \<longrightarrow>
        (p_timeout e, tm) \<in> set (timers b) \<longrightarrow> timer_key tm = k) \<and>
     (\<forall>k e k' e'. (k, e) \<in> set (pendingPermissionRequests b) \<longrightarrow>
        (k', e') \<in> set (pendingPermissionRequests b) \<longrightarrow>
        p_timeout e = p_timeout e' \<longrightarrow> k = k')"

text \<open>
  The effect shared by an answer that finds its entry and by a timer that fires: the timer
  \<open>t\<close> is disarmed, the resolver of promise \<open>t\<close> is called and the entry under \<open>key\<close> is deleted.
\<close>

definition settle :: "string \<Rightarrow> nat \<Rightarrow> PermissionResult \<Rightarrow> broker \<Rightarrow> broker" where
  "settle key t r b =
     b\<lparr>timers := AList.delete t (timers b), resolved := resolved b @ [(t, r)],
       pendingPermissionRequests := AList.delete key (pendingPermissionRequests b)\<rparr>"

text \<open>Every armed timer is due in the future.\<close>

definition no_overdue :: "broker \<Rightarrow> bool" where
  "no_overdue b \<longleftrightarrow> (\<forall>t tm. (t, tm) \<in> set (timers b) \<longrightarrow> clock b < due tm)"

text \<open>
  The approval with promise and timer \<open>h\<close>, asked for the pair \<open>(sid, rid)\<close> with a timer due
  at \<open>D\<close>: its handle was given out; an entry carries the identifier \<open>rid\<close> exactly if it
  belongs to \<open>h\<close>, and then it carries \<open>sid\<close>; and either its timer is still armed, or its
  promise holds a decision among \<open>R\<close> and no entry carries \<open>rid\<close>.
\<close>

definition approval_state ::
  "nat \<Rightarrow> string \<Rightarrow> string \<Rightarrow> nat \<Rightarrow> PermissionResult set \<Rightarrow> broker \<Rightarrow> bool" where
  "approval_state h sid rid D R b \<longleftrightarrow>
     h < next_handle b \<and>
     (\<forall>k e. (k, e) \<in> set (pendingPermissionRequests b) \<longrightarrow>
        (p_requestId e = rid \<longrightarrow> p_timeout e = h) \<and>
        (p_timeout e = h \<longrightarrow> p_sessionId e = sid \<and> p_requestId e = rid)) \<and>
     (\<forall>tm. (h, tm) \<in> set (timers b) \<longrightarrow> due tm = D) \<and>
     (h \<in> fst ` set (timers b) \<or>
      (\<exists>r\<in>R. map_of (resolved b) h = Some r) \<and>
      (\<forall>k e. (k, e) \<in> set (pendingPermissionRequests b) \<longrightarrow> p_requestId e \<noteq> rid))"

section \<open>The classifier decides membership in a fixed set\<close>

text \<open>
  C5. \<^const>\<open>isApprovableTool\<close> is a total function on arbitrary strings; it is true exactly
  for the eight names of the approval-requiring categories: file write (\<^verbatim>\<open>Write\<close>), file edit
  (\<^verbatim>\<open>Edit\<close>), multi-file edit (\<^verbatim>\<open>MultiEdit\<close>), shell execution (\<^verbatim>\<open>Bash\<close>), pattern search
  (\<^verbatim>\<open>Glob\<close>), external-web fetch (\<^verbatim>\<open>WebFetch\<close>), external-web search (\<^verbatim>\<open>WebSearch\<close>) and the
  generic external-integration call (\<^verbatim>\<open>MCPTool\<close>), and false for every other string.
\<close>

theorem isApprovableTool_closed_set:
  "isApprovableTool v =
     (v \<in> {''Write'', ''Edit'', ''MultiEdit'', ''Bash'', ''Glob'', ''WebFetch'', ''WebSearch'',
           ''MCPTool''})"
  unfolding isApprovableTool_def ApprovableTools_def
  by (simp del: insert_iff) (auto)

section \<open>The approval callback without a session, and for other tools\<close>

text \<open>
  C7. For an approval-requiring tool name, when no session identifier is known (the variable
  \<^verbatim>\<open>capturedSessionId\<close> is \<^verbatim>\<open>undefined\<close> or empty) at the time \<^const>\<open>canUseTool\<close> is called, the
  callback returns a deny decision at once, as a value; the state is unchanged, so that no
  pending approval is registered and no permission-request message is delivered.
\<close>

theorem canUseTool_without_session:
  assumes "isApprovableTool tool" and "\<not> truthy (capturedSessionId s)"
  shows "canUseTool resume tool inp uuid s =
           (Returned (Deny ''Cannot approve permission without a session ID''), s)"
  using assms by (simp add: canUseTool_def)

text \<open>The shell tool, asked for in a process where no session is known.\<close>

theorem canUseTool_without_session_witness:
  "isApprovableTool ''Bash'' \<and> \<not> truthy (capturedSessionId idle) \<and>
   canUseTool None ''Bash'' (JObj [(''command'', JStr ''ls'')]) ''u1'' idle =
     (Returned (Deny ''Cannot approve permission without a session ID''), idle)"
proof -
  have a: "isApprovableTool ''Bash''"
    by (simp add: isApprovableTool_def ApprovableTools_def)
  have b: "\<not> truthy (capturedSessionId idle)"
    by (simp add: truthy_def idle_def)
  from a b canUseTool_without_session [OF a b] show ?thesis by blast
qed

text \<open>
  C8. For a tool name that is not approval-requiring and any input, \<^const>\<open>canUseTool\<close> returns
  an allow decision whose updated input is the input it was given; the state is unchanged,
  so that nothing is registered with the broker and nothing is delivered to the sink.
\<close>

theorem canUseTool_passes_other_tools:
  assumes "\<not> isApprovableTool tool"
  shows "canUseTool resume tool inp uuid s = (Returned (Allow inp), s)"
  using assms by (simp add: canUseTool_def)

text \<open>Reading a file is granted at once.\<close>

theorem canUseTool_passes_other_tools_witness:
  "\<not> isApprovableTool ''Read'' \<and>
   canUseTool (Some ''s1'') ''Read'' (JObj [(''file_path'', JStr ''a.txt'')]) ''u1'' idle =
     (Returned (Allow (JObj [(''file_path'', JStr ''a.txt'')])), idle)"
proof -
  have a: "\<not> isApprovableTool ''Read''"
    by (simp add: isApprovableTool_def ApprovableTools_def)
  from a canUseTool_passes_other_tools [OF a] show ?thesis by blast
qed

section \<open>Normalisation of user turns\<close>

text \<open>
  C10. For an engine event tagged as a user turn: when its content is a non-empty array, the
  loop body delivers exactly one \<^verbatim>\<open>claude-response\<close> message, whose payload has type
  \<^verbatim>\<open>tool_result\<close> and carries the content array as it is, whatever the type of the first
  block; when its content is a string or the empty array, the event changes nothing, so no
  message is delivered.
\<close>

theorem user_turn_normalisation:
  "on_message command processKey controller (SDKUserMessage (ContentArray (b # bs))) s =
     s\<lparr>delivered := delivered s @
       [\<lparr>wtype = claude_response, sessionId = capturedSessionId s,
         data = Some (Converted \<lparr>conv_type = ''tool_result'', conv_content = b # bs,
                                  conv_session_id = None\<rparr>),
         permissionPayload = None, error = None, exitCode = None, isNewSession = None\<rparr>]\<rparr> \<and>
   on_message command processKey controller (SDKUserMessage (ContentString text)) s = s \<and>
   on_message command processKey controller (SDKUserMessage (ContentArray [])) s = s"
  by (simp add: on_message_def convert_def send_converted_def sendMessage_def message_def)

section \<open>Completion of a new session\<close>

lemmas run_defs =
  spawnClaude_def begin_invocation_def on_message_def convert_def send_converted_def
  handle_init_def handle_result_def sendMessage_def message_def or_else_def truthy_def
  idle_def Let_def

text \<open>What the loop body does for a result event, in any state.\<close>

lemma on_result_event:
  "on_message command processKey controller (SDKResultMessage subtype) s =
     s\<lparr>activeClaudeControllers :=
         AList.delete (or_else (capturedSessionId s) processKey) (activeClaudeControllers s),
       delivered := delivered s @
         [(message claude_complete (capturedSessionId s))
            \<lparr>exitCode := Some (if subtype = ''success'' then 0 else 1),
             isNewSession := Some (\<not> truthy (capturedSessionId s) \<and> command \<noteq> [])\<rparr>]\<rparr>"
  by (simp add: on_message_def convert_def send_converted_def handle_result_def sendMessage_def
      Let_def)

text \<open>
  C1. The first end-to-end scenario of the specification: the prompt \<^verbatim>\<open>hello\<close>, no identifier
  to resume, and an engine that reports \<^verbatim>\<open>init\<close> with the identifier \<^verbatim>\<open>s1\<close>, an assistant turn
  and a successful result. The sink receives \<^verbatim>\<open>session-created\<close>, two responses and one
  \<^verbatim>\<open>claude-complete\<close> with exit code 0 and the identifier \<^verbatim>\<open>s1\<close>, and the registration of the
  controller is removed. The new-session flag of the completion is false: it is computed
  from the identifier known at the time of the result, which the \<^verbatim>\<open>init\<close> event has set,
  not from the identifier known when the invocation started.
\<close>

theorem new_session_completion_flag:
  "spawnClaude ''hello'' None 7 ''1000'' ''1001''
     [Yields (SDKSystemMessage ''init'' (Some ''s1'')),
      Yields (SDKAssistantMessage
        [\<lparr>block_type = ''text'', block_fields = [(''text'', JStr ''hi'')]\<rparr>] ''s1''),
      Yields (SDKResultMessage ''success'')] Exhausted idle =
   (Inr (Some ''s1''),
    idle\<lparr>delivered :=
      [message session_created (Some ''s1''),
       (message claude_response (Some ''s1''))
         \<lparr>data := Some (Converted \<lparr>conv_type = ''assistant'',
             conv_content = [\<lparr>block_type = ''text'', block_fields = [(''text'', JStr ''hi'')]\<rparr>],
             conv_session_id = Some ''s1''\<rparr>)\<rparr>,
       (message claude_response (Some ''s1''))
         \<lparr>data := Some (ContentOnly
             [\<lparr>block_type = ''text'', block_fields = [(''text'', JStr ''hi'')]\<rparr>])\<rparr>,
       (message claude_complete (Some ''s1''))
         \<lparr>exitCode := Some 0, isNewSession := Some False\<rparr>],
      capturedSessionId := Some ''s1'', sessionCreatedSent := True\<rparr>)"
  by (simp add: run_defs)

section \<open>Failure of the engine\<close>

text \<open>What the \<^verbatim>\<open>catch\<close> block does, in the state \<open>s3\<close> the loop has reached.\<close>

lemma spawnClaude_failure:
  assumes "s3 = consume command resume (or_else resume now) controller steps
                  (begin_invocation resume controller now s0)"
  shows "spawnClaude command resume controller now now' steps (Throws msg) s0 =
     (Inl msg,
      s3\<lparr>activeClaudeControllers :=
           AList.delete (or_else (capturedSessionId s3) now') (activeClaudeControllers s3),
         delivered := delivered s3 @
           [(message claude_error (capturedSessionId s3))
              \<lparr>error := Some (if msg = [] then ''Unknown error occurred'' else msg)\<rparr>,
            (message claude_complete (capturedSessionId s3))
              \<lparr>exitCode := Some 1,
               isNewSession := Some (\<not> truthy (capturedSessionId s3) \<and> command \<noteq> [])\<rparr>]\<rparr>)"
  unfolding assms by (simp add: spawnClaude_def sendMessage_def Let_def)

text \<open>
  C6. An invocation without an identifier to resume whose engine throws before any event,
  with the clock at \<^verbatim>\<open>1000\<close> when the controller is registered and at \<^verbatim>\<open>1001\<close> in the
  \<^verbatim>\<open>catch\<close> block. The sink receives \<^verbatim>\<open>claude-error\<close> with the error text and then
  \<^verbatim>\<open>claude-complete\<close> with exit code 1, and the error is thrown again; but the \<^verbatim>\<open>catch\<close> block
  deletes the key \<^verbatim>\<open>1001\<close>, so the controller stays registered under \<^verbatim>\<open>1000\<close> and a later
  abort with that key still finds it.
\<close>

theorem failure_leaves_placeholder_registration:
  "spawnClaude ''hello'' None 7 ''1000'' ''1001'' [] (Throws ''boom'') idle =
   (Inl ''boom'',
    idle\<lparr>activeClaudeControllers := [(''1000'', 7)],
         delivered :=
           [(message claude_error None)\<lparr>error := Some ''boom''\<rparr>,
            (message claude_complete None)\<lparr>exitCode := Some 1, isNewSession := Some True\<rparr>]\<rparr>) \<and>
   abortClaudeSession ''1000''
     (snd (spawnClaude ''hello'' None 7 ''1000'' ''1001'' [] (Throws ''boom'') idle)) =
   (True,
    idle\<lparr>aborted := [7],
         delivered :=
           [(message claude_error None)\<lparr>error := Some ''boom''\<rparr>,
            (message claude_complete None)\<lparr>exitCode := Some 1, isNewSession := Some True\<rparr>]\<rparr>)"
  by (simp add: run_defs abortClaudeSession_def)

section \<open>The headless entry point\<close>

lemma collect_messages:
  "messages (collect m c) = messages c @ response_payloads [m]"
  by (simp add: collect_def response_payloads_def Let_def split: option.splits)

lemma response_payloads_append:
  "response_payloads (xs @ ys) = response_payloads xs @ response_payloads ys"
  by (simp add: response_payloads_def)

lemma fold_collect_messages:
  "messages (fold collect ms c) = messages c @ response_payloads ms"
proof (induction ms arbitrary: c)
  case Nil
  show ?case by (simp add: response_payloads_def)
next
  case (Cons m ms)
  have "response_payloads (m # ms) = response_payloads [m] @ response_payloads ms"
    using response_payloads_append [of "[m]" ms] by simp
  with Cons show ?case by (simp add: collect_messages)
qed

lemma observed_exit_code_snoc:
  "observed_exit_code (ms @ [m]) =
     (if wtype m = claude_complete then Some (case exitCode m of None \<Rightarrow> 0 | Some n \<Rightarrow> n)
      else observed_exit_code ms)"
  by (simp add: observed_exit_code_def)

lemma collect_finalExitCode:
  "finalExitCode (collect m c) =
     (if wtype m = claude_complete then (case exitCode m of None \<Rightarrow> 0 | Some n \<Rightarrow> n)
      else finalExitCode c)"
  by (simp add: collect_def Let_def split: option.splits)

lemma fold_collect_finalExitCode:
  "finalExitCode (fold collect ms c) =
     (case observed_exit_code ms of None \<Rightarrow> finalExitCode c | Some n \<Rightarrow> n)"
proof (induction ms rule: rev_induct)
  case Nil
  show ?case by (simp add: observed_exit_code_def)
next
  case (snoc m ms)
  then show ?case
    by (simp add: observed_exit_code_snoc collect_finalExitCode)
qed

text \<open>When the invocation throws, the last completion it delivered has exit code 1.\<close>

lemma spawnClaude_throws_observed:
  "observed_exit_code
     (delivered (snd (spawnClaude command resume controller now now' steps (Throws msg) s0))) =
   Some 1"
  by (simp add: spawnClaude_def Let_def sendMessage_def observed_exit_code_def message_def)

lemma spawnClaude_result_cases:
  "fst (spawnClaude command resume controller now now' steps ending s0) =
     (case ending of
        Exhausted \<Rightarrow>
          Inr (capturedSessionId
                 (snd (spawnClaude command resume controller now now' steps ending s0)))
      | Throws msg \<Rightarrow> Inl msg)"
  by (simp add: spawnClaude_def Let_def split: stream_end.splits)

text \<open>
  C9. Whatever the input and however the underlying invocation ends, the headless entry
  point returns a result and throws nothing. When the invocation throws, the result holds
  the payload of every \<^verbatim>\<open>claude-response\<close> message delivered up to the failure, in order, and
  its exit code is the exit code of the last completion the collector observed, or 1 when
  it observed none. The last completion it observed then is the one the \<^verbatim>\<open>catch\<close> block of
  the invocation delivered, so the exit code is 1.
\<close>

theorem headless_never_throws:
  "(\<exists>r s. spawnClaudeHeadless command resume controller now now' steps ending s0 = (Inr r, s)) \<and>
   (\<exists>r. spawnClaudeHeadless command resume controller now now' steps (Throws msg) s0 =
      (Inr r, snd (spawnClaude command resume controller now now' steps (Throws msg)
                     (s0\<lparr>delivered := []\<rparr>))) \<and>
      h_messages r =
        response_payloads (delivered (snd (spawnClaude command resume controller now now' steps
          (Throws msg) (s0\<lparr>delivered := []\<rparr>)))) \<and>
      h_exitCode r =
        (case observed_exit_code (delivered (snd (spawnClaude command resume controller now now'
                steps (Throws msg) (s0\<lparr>delivered := []\<rparr>)))) of
           None \<Rightarrow> 1 | Some n \<Rightarrow> n) \<and>
      h_exitCode r = 1)"
proof
  show "\<exists>r s. spawnClaudeHeadless command resume controller now now' steps ending s0 = (Inr r, s)"
    by (simp add: spawnClaudeHeadless_def Let_def split: prod.splits sum.splits)
next
  let ?run = "spawnClaude command resume controller now now' steps (Throws msg)
                (s0\<lparr>delivered := []\<rparr>)"
  have f: "fst ?run = Inl msg"
    by (simp add: spawnClaude_result_cases)
  have o: "observed_exit_code (delivered (snd ?run)) = Some 1"
    by (rule spawnClaude_throws_observed)
  have e: "finalExitCode (fold collect (delivered (snd ?run)) new_collector) = 1"
    by (simp add: fold_collect_finalExitCode o)
  have m: "messages (fold collect (delivered (snd ?run)) new_collector) =
             response_payloads (delivered (snd ?run))"
    by (simp add: fold_collect_messages new_collector_def)
  obtain r s where rs: "?run = (r, s)" by (cases ?run)
  with f have r: "r = Inl msg" by simp
  show "\<exists>r. spawnClaudeHeadless command resume controller now now' steps (Throws msg) s0 =
      (Inr r, snd ?run) \<and>
      h_messages r = response_payloads (delivered (snd ?run)) \<and>
      h_exitCode r = (case observed_exit_code (delivered (snd ?run)) of None \<Rightarrow> 1 | Some n \<Rightarrow> n) \<and>
      h_exitCode r = 1"
    using e m o rs r by (simp add: spawnClaudeHeadless_def)
qed

section \<open>Rebinding the session on an init event\<close>

lemma consume_append:
  "consume command resume pk ctl (xs @ ys) s =
     consume command resume pk ctl ys (consume command resume pk ctl xs s)"
  by (induction command resume pk ctl xs s rule: consume.induct) simp_all

lemma send_converted_announced:
  "announced s \<Longrightarrow> announced (send_converted c s)"
  by (cases c) (auto simp add: announced_def send_converted_def sendMessage_def message_def
      session_created_count_def Let_def split: if_splits)

lemma send_converted_flag:
  "sessionCreatedSent (send_converted c s) = sessionCreatedSent s"
  by (cases c) (simp_all add: send_converted_def sendMessage_def Let_def)

lemma handle_init_announced:
  "announced s \<Longrightarrow> announced (handle_init pk ctl sid s)"
  by (auto simp add: announced_def handle_init_def sendMessage_def message_def
      session_created_count_def Let_def split: if_splits)

lemma handle_init_flag:
  "sessionCreatedSent s \<Longrightarrow> sessionCreatedSent (handle_init pk ctl sid s)"
  by (simp add: handle_init_def sendMessage_def Let_def)

lemma handle_result_announced:
  "announced s \<Longrightarrow> announced (handle_result command pk subtype s)"
  by (auto simp add: announced_def handle_result_def sendMessage_def message_def
      session_created_count_def Let_def split: if_splits)

lemma handle_result_flag:
  "sessionCreatedSent (handle_result command pk subtype s) = sessionCreatedSent s"
  by (simp add: handle_result_def sendMessage_def Let_def)

lemma on_message_announced:
  "announced s \<Longrightarrow> announced (on_message command pk ctl m s)"
  by (cases m)
    (simp_all add: on_message_def Let_def send_converted_announced handle_init_announced
      handle_result_announced)

lemma on_message_flag:
  "sessionCreatedSent s \<Longrightarrow> sessionCreatedSent (on_message command pk ctl m s)"
  by (cases m)
    (simp_all add: on_message_def Let_def send_converted_flag handle_init_flag
      handle_result_flag)

lemma canUseTool_announced:
  "announced s \<Longrightarrow> announced (snd (canUseTool resume tool inp uuid s))"
  by (auto simp add: canUseTool_def announced_def sendMessage_def message_def
      session_created_count_def Let_def split: prod.splits if_splits)

lemma canUseTool_flag:
  "sessionCreatedSent (snd (canUseTool resume tool inp uuid s)) = sessionCreatedSent s"
  by (simp add: canUseTool_def sendMessage_def Let_def split: prod.splits)

lemma consume_announced:
  "announced s \<Longrightarrow> announced (consume command resume pk ctl steps s) \<and>
     (sessionCreatedSent s \<longrightarrow> sessionCreatedSent (consume command resume pk ctl steps s))"
proof (induction command resume pk ctl steps s rule: consume.induct)
  case (1 command resume processKey controller s)
  then show ?case by simp
next
  case (2 command resume processKey controller m rest s)
  then show ?case by (simp add: on_message_announced on_message_flag)
next
  case (3 command resume processKey controller tool inp uuid rest s)
  then show ?case by (simp add: canUseTool_announced canUseTool_flag)
qed

lemma begin_invocation_announced:
  "announced (begin_invocation resume ctl now (s0\<lparr>delivered := []\<rparr>))"
  by (simp add: announced_def begin_invocation_def Let_def session_created_count_def)

lemma rebind_sets_flag:
  assumes "sid \<noteq> []" and "capturedSessionId s \<noteq> Some sid"
  shows "sessionCreatedSent (on_message command pk ctl (SDKSystemMessage ''init'' (Some sid)) s) \<and>
         capturedSessionId (on_message command pk ctl (SDKSystemMessage ''init'' (Some sid)) s) = Some sid \<and>
         activeClaudeControllers (on_message command pk ctl (SDKSystemMessage ''init'' (Some sid)) s) =
           (if pk \<noteq> sid then AList.update sid ctl (AList.delete pk (activeClaudeControllers s))
            else activeClaudeControllers s)"
  using assms
  by (auto simp add: on_message_def convert_def send_converted_def handle_init_def truthy_def
      sendMessage_def Let_def)

lemma spawnClaude_count:
  "session_created_count (delivered (snd (spawnClaude command resume ctl now now' steps ending s0))) =
   session_created_count (delivered (consume command resume (or_else resume now) ctl steps
      (begin_invocation resume ctl now s0)))"
  by (cases ending) (simp_all add: spawnClaude_def Let_def sendMessage_def message_def session_created_count_def)

text \<open>
  C2. Take an invocation with a new sink in which the engine, after the steps \<open>pre\<close>, reports
  an \<^verbatim>\<open>init\<close> event that carries a session identifier \<open>sid\<close> (one the code reads as present)
  different from the identifier known at that point, which is still the requested one: the
  session has not been rebound before. Where no identifier was requested, the placeholder
  under which the controller was registered is not \<open>sid\<close>. Then exactly one
  \<^verbatim>\<open>session-created\<close> message is delivered in the whole invocation, however it goes on and
  ends; the event sets the tracked identifier to \<open>sid\<close>; it moves the registration of the
  controller from the old key (the requested identifier, or else the placeholder) to the
  key \<open>sid\<close>; an abort with \<open>sid\<close> right after returns true and triggers this controller; and
  an abort with the old key returns false and changes nothing.
\<close>

theorem rebind_on_init:
  assumes carries: "truthy (Some sid)"
    and differs: "capturedSessionId s \<noteq> Some sid"
    and first: "capturedSessionId s = resume"
    and placeholder: "\<not> truthy resume \<longrightarrow> now \<noteq> sid"
    and before: "s = consume command resume (or_else resume now) controller pre
                       (begin_invocation resume controller now (s0\<lparr>delivered := []\<rparr>))"
    and after: "s' = on_message command (or_else resume now) controller
                       (SDKSystemMessage ''init'' (Some sid)) s"
  shows "session_created_count (delivered (snd (spawnClaude command resume controller now now'
             (pre @ Yields (SDKSystemMessage ''init'' (Some sid)) # post) ending
             (s0\<lparr>delivered := []\<rparr>)))) = 1 \<and>
         capturedSessionId s' = Some sid \<and>
         activeClaudeControllers s' =
           AList.update sid controller
             (AList.delete (or_else resume now) (activeClaudeControllers s)) \<and>
         abortClaudeSession sid s' =
           (True, s'\<lparr>aborted := aborted s' @ [controller],
                     activeClaudeControllers := AList.delete sid (activeClaudeControllers s')\<rparr>) \<and>
         abortClaudeSession (or_else resume now) s' = (False, s')"
proof -
  let ?pk = "or_else resume now"
  let ?start = "begin_invocation resume controller now (s0\<lparr>delivered := []\<rparr>)"
  from carries have ne: "sid \<noteq> []" by (simp add: truthy_def)
  have pk: "?pk \<noteq> sid"
  proof (cases "truthy resume")
    case True
    then obtain r where r: "resume = Some r" "r \<noteq> []"
      by (cases resume) (simp_all add: truthy_def)
    with first differs have "r \<noteq> sid" by simp
    with r show ?thesis by (simp add: or_else_def)
  next
    case False
    with placeholder have "now \<noteq> sid" by simp
    moreover from False have "?pk = now"
      by (cases resume) (simp_all add: truthy_def or_else_def)
    ultimately show ?thesis by simp
  qed
  note r = rebind_sets_flag [OF ne differs, of command ?pk controller, folded after]
  have a: "announced s"
    unfolding before using consume_announced [OF begin_invocation_announced] by blast
  have a': "announced s'"
    unfolding after using on_message_announced [OF a] .
  let ?final = "consume command resume ?pk controller post s'"
  have "announced ?final \<and> sessionCreatedSent ?final"
    using consume_announced [OF a', of command resume ?pk controller post] r by blast
  then have "session_created_count (delivered ?final) = 1"
    by (simp add: announced_def)
  moreover have "consume command resume ?pk controller
      (pre @ Yields (SDKSystemMessage ''init'' (Some sid)) # post) ?start = ?final"
    by (simp add: consume_append before after)
  ultimately have one: "session_created_count (delivered (snd (spawnClaude command resume
             controller now now' (pre @ Yields (SDKSystemMessage ''init'' (Some sid)) # post)
             ending (s0\<lparr>delivered := []\<rparr>)))) = 1"
    by (simp add: spawnClaude_count)
  from r pk have moved: "activeClaudeControllers s' =
      AList.update sid controller (AList.delete ?pk (activeClaudeControllers s))"
    by simp
  have new: "abortClaudeSession sid s' =
              (True, s'\<lparr>aborted := aborted s' @ [controller],
                        activeClaudeControllers := AList.delete sid (activeClaudeControllers s')\<rparr>)"
    using moved by (simp add: abortClaudeSession_def update_conv')
  have old: "abortClaudeSession ?pk s' = (False, s')"
    using moved pk by (simp add: abortClaudeSession_def update_conv' delete_conv')
  from one r moved new old show ?thesis by blast
qed

text \<open>Resuming \<^verbatim>\<open>s1\<close>, the engine reports \<^verbatim>\<open>s2\<close> and then a successful result.\<close>

theorem rebind_on_init_witness:
  "truthy (Some ''s2'') \<and> truthy (Some ''s1'') \<and>
   capturedSessionId (begin_invocation (Some ''s1'') 7 ''1000'' (idle\<lparr>delivered := []\<rparr>)) =
     Some ''s1'' \<and>
   session_created_count (delivered (snd (spawnClaude ''hello'' (Some ''s1'') 7 ''1000'' ''1001''
       ([] @ Yields (SDKSystemMessage ''init'' (Some ''s2'')) # [Yields (SDKResultMessage ''success'')])
       Exhausted (idle\<lparr>delivered := []\<rparr>)))) = 1 \<and>
   capturedSessionId (on_message ''hello'' ''s1'' 7 (SDKSystemMessage ''init'' (Some ''s2''))
       (begin_invocation (Some ''s1'') 7 ''1000'' (idle\<lparr>delivered := []\<rparr>))) = Some ''s2'' \<and>
   fst (abortClaudeSession ''s2'' (on_message ''hello'' ''s1'' 7 (SDKSystemMessage ''init'' (Some ''s2''))
       (begin_invocation (Some ''s1'') 7 ''1000'' (idle\<lparr>delivered := []\<rparr>)))) = True \<and>
   abortClaudeSession ''s1'' (on_message ''hello'' ''s1'' 7 (SDKSystemMessage ''init'' (Some ''s2''))
       (begin_invocation (Some ''s1'') 7 ''1000'' (idle\<lparr>delivered := []\<rparr>))) =
     (False, on_message ''hello'' ''s1'' 7 (SDKSystemMessage ''init'' (Some ''s2''))
       (begin_invocation (Some ''s1'') 7 ''1000'' (idle\<lparr>delivered := []\<rparr>)))"
proof -
  let ?s = "begin_invocation (Some ''s1'') 7 ''1000'' (idle\<lparr>delivered := []\<rparr>)"
  have pk: "or_else (Some ''s1'') ''1000'' = ''s1''"
    by (simp add: or_else_def)
  have h1: "truthy (Some ''s2'')" by (simp add: truthy_def)
  have t: "truthy (Some ''s1'')" by (simp add: truthy_def)
  have h2: "capturedSessionId ?s \<noteq> Some ''s2''"
    by (simp add: begin_invocation_def Let_def)
  have h3: "capturedSessionId ?s = Some ''s1''"
    by (simp add: begin_invocation_def Let_def)
  have h4: "\<not> truthy (Some ''s1'') \<longrightarrow> ''1000'' \<noteq> ''s2''"
    using t by simp
  have h5: "?s = consume ''hello'' (Some ''s1'') (or_else (Some ''s1'') ''1000'') 7 [] ?s"
    by simp
  have h6: "on_message ''hello'' ''s1'' 7 (SDKSystemMessage ''init'' (Some ''s2'')) ?s =
            on_message ''hello'' (or_else (Some ''s1'') ''1000'') 7
              (SDKSystemMessage ''init'' (Some ''s2'')) ?s"
    by (simp only: pk)
  from rebind_on_init [OF h1 h2 h3 h4 h5 h6, where now' = "''1001''"
      and post = "[Yields (SDKResultMessage ''success'')]" and ending = Exhausted]
    h1 t h3 show ?thesis
    unfolding pk by simp
qed

section \<open>The broker keeps its registry consistent\<close>

lemma set_delete: "set (AList.delete k al) = {x \<in> set al. fst x \<noteq> k}"
  by (auto simp add: AList.delete_eq)

lemma in_update_cases:
  "x \<in> set (AList.update k v al) \<Longrightarrow> x = (k, v) \<or> x \<in> set al"
  by (induction al) (auto split: if_splits)

lemma in_update_self: "(k, v) \<in> set (AList.update k v al)"
  by (induction al) auto

lemma in_update_other: "x \<in> set al \<Longrightarrow> fst x \<noteq> k \<Longrightarrow> x \<in> set (AList.update k v al)"
  by (induction al) auto

lemma find_pending_Some:
  "find_pending xs sid rid = Some (k, e) \<Longrightarrow>
     (k, e) \<in> set xs \<and> p_sessionId e = sid \<and> p_requestId e = rid"
  by (induction xs sid rid rule: find_pending.induct) (auto split: if_splits)

lemma find_pending_None:
  "find_pending xs sid rid = None \<longleftrightarrow>
     (\<forall>k e. (k, e) \<in> set xs \<longrightarrow> \<not> (p_sessionId e = sid \<and> p_requestId e = rid))"
  by (induction xs sid rid rule: find_pending.induct) auto

lemma broker_inv_empty: "broker_inv empty_broker"
  by (simp add: broker_inv_def empty_broker_def)

lemma register_fields:
  "pendingPermissionRequests (snd (register k rid sid b)) =
     AList.update k \<lparr>p_requestId = rid, p_sessionId = sid, p_resolve = next_handle b,
                     p_timeout = next_handle b\<rparr> (pendingPermissionRequests b)"
  "timers (snd (register k rid sid b)) =
     timers b @ [(next_handle b, \<lparr>due = clock b + approval_timeout, timer_key = k,
                                  timer_resolve = next_handle b\<rparr>)]"
  "resolved (snd (register k rid sid b)) = resolved b"
  "clock (snd (register k rid sid b)) = clock b"
  "next_handle (snd (register k rid sid b)) = Suc (next_handle b)"
  "fst (register k rid sid b) = next_handle b"
  by (simp_all add: register_def Let_def)

lemma broker_invI:
  assumes "distinct (map fst (pendingPermissionRequests b))"
    and "distinct (map fst (timers b))"
    and "distinct (map fst (resolved b))"
    and "\<And>k e. (k, e) \<in> set (pendingPermissionRequests b) \<Longrightarrow>
        p_resolve e = p_timeout e \<and> p_timeout e < next_handle b \<and>
        p_timeout e \<notin> fst ` set (resolved b)"
    and "\<And>t tm. (t, tm) \<in> set (timers b) \<Longrightarrow>
        timer_resolve tm = t \<and> t < next_handle b \<and> t \<notin> fst ` set (resolved b)"
    and "\<And>p r. (p, r) \<in> set (resolved b) \<Longrightarrow> p < next_handle b"
    and "\<And>k e tm. (k, e) \<in> set (pendingPermissionRequests b) \<Longrightarrow>
        (p_timeout e, tm) \<in> set (timers b) \<Longrightarrow> timer_key tm = k"
    and "\<And>k e k' e'. (k, e) \<in> set (pendingPermissionRequests b) \<Longrightarrow>
        (k', e') \<in> set (pendingPermissionRequests b) \<Longrightarrow>
        p_timeout e = p_timeout e' \<Longrightarrow> k = k'"
  shows "broker_inv b"
  unfolding broker_inv_def
  apply (intro conjI allI impI)
  using assms apply blast+
  done

lemma broker_invD:
  assumes "broker_inv b"
  shows "distinct (map fst (pendingPermissionRequests b))"
    and "distinct (map fst (timers b))"
    and "distinct (map fst (resolved b))"
    and "\<And>k e. (k, e) \<in> set (pendingPermissionRequests b) \<Longrightarrow>
        p_resolve e = p_timeout e \<and> p_timeout e < next_handle b \<and>
        p_timeout e \<notin> fst ` set (resolved b)"
    and "\<And>t tm. (t, tm) \<in> set (timers b) \<Longrightarrow>
        timer_resolve tm = t \<and> t < next_handle b \<and> t \<notin> fst ` set (resolved b)"
    and "\<And>p r. (p, r) \<in> set (resolved b) \<Longrightarrow> p < next_handle b"
    and "\<And>k e tm. (k, e) \<in> set (pendingPermissionRequests b) \<Longrightarrow>
        (p_timeout e, tm) \<in> set (timers b) \<Longrightarrow> timer_key tm = k"
    and "\<And>k e k' e'. (k, e) \<in> set (pendingPermissionRequests b) \<Longrightarrow>
        (k', e') \<in> set (pendingPermissionRequests b) \<Longrightarrow>
        p_timeout e = p_timeout e' \<Longrightarrow> k = k'"
  using assms unfolding broker_inv_def by blast+

lemma broker_inv_register:
  assumes "broker_inv b"
  shows "broker_inv (snd (register k rid sid b))"
proof (rule broker_invI, unfold register_fields)
  let ?h = "next_handle b"
  let ?e = "\<lparr>p_requestId = rid, p_sessionId = sid, p_resolve = ?h, p_timeout = ?h\<rparr>"
  let ?P = "pendingPermissionRequests b"
  let ?tm = "\<lparr>due = clock b + approval_timeout, timer_key = k, timer_resolve = ?h\<rparr>"
  note inv = broker_invD [OF assms]
  have old: "e' = ?e \<and> k' = k \<or> (k', e') \<in> set ?P"
    if "(k', e') \<in> set (AList.update k ?e ?P)" for k' e'
    using in_update_cases [OF that] by blast
  have Rh: "?h \<notin> fst ` set (resolved b)"
    using inv(6) by fastforce
  have Th: "?h \<notin> fst ` set (timers b)"
    using inv(5) by fastforce
  show "distinct (map fst (AList.update k ?e ?P))"
    using inv(1) by (simp add: distinct_update)
  show "distinct (map fst (timers b @ [(?h, ?tm)]))"
    using inv(2) Th by simp
  show "distinct (map fst (resolved b))"
    by (rule inv(3))
  show "p_resolve e' = p_timeout e' \<and> p_timeout e' < Suc ?h \<and> p_timeout e' \<notin> fst ` set (resolved b)"
    if "(k', e') \<in> set (AList.update k ?e ?P)" for k' e'
    using old [OF that] inv(4) [of k' e'] Rh by (elim disjE) (simp_all add: less_Suc_eq)
  show "timer_resolve tm = t \<and> t < Suc ?h \<and> t \<notin> fst ` set (resolved b)"
    if "(t, tm) \<in> set (timers b @ [(?h, ?tm)])" for t tm
  proof (cases "(t, tm) \<in> set (timers b)")
    case True
    with inv(5) [of t tm] show ?thesis by (simp add: less_Suc_eq)
  next
    case False
    with that have "t = ?h" "tm = ?tm" by simp_all
    with Rh show ?thesis by simp
  qed
  show "p < Suc ?h" if "(p, r) \<in> set (resolved b)" for p r
    using inv(6) [OF that] by simp
  show "timer_key tm = k'"
    if a: "(k', e') \<in> set (AList.update k ?e ?P)"
      and b: "(p_timeout e', tm) \<in> set (timers b @ [(?h, ?tm)])" for k' e' tm
    using old [OF a]
  proof
    assume n: "e' = ?e \<and> k' = k"
    with b Th have "tm = ?tm" by (auto simp add: image_iff)
    with n show ?thesis by simp
  next
    assume o: "(k', e') \<in> set ?P"
    with inv(4) have "p_timeout e' < ?h" by blast
    with b have "(p_timeout e', tm) \<in> set (timers b)" by auto
    with o inv(7) show ?thesis by blast
  qed
  show "k1 = k2"
    if a: "(k1, e1) \<in> set (AList.update k ?e ?P)"
      and b: "(k2, e2) \<in> set (AList.update k ?e ?P)"
      and c: "p_timeout e1 = p_timeout e2" for k1 e1 k2 e2
  proof -
    have lt: "p_timeout e' < ?h" if "(k', e') \<in> set ?P" for k' e'
      using inv(4) [OF that] by simp
    from old [OF a] old [OF b] show ?thesis
    proof (elim disjE)
      assume "e1 = ?e \<and> k1 = k" "e2 = ?e \<and> k2 = k"
      then show ?thesis by simp
    next
      assume "e1 = ?e \<and> k1 = k" "(k2, e2) \<in> set ?P"
      with lt [of k2 e2] c show ?thesis by simp
    next
      assume "(k1, e1) \<in> set ?P" "e2 = ?e \<and> k2 = k"
      with lt [of k1 e1] c show ?thesis by simp
    next
      assume "(k1, e1) \<in> set ?P" "(k2, e2) \<in> set ?P"
      with c inv(8) show ?thesis by blast
    qed
  qed
qed
lemma settle_fields:
  "pendingPermissionRequests (settle key t r b) = AList.delete key (pendingPermissionRequests b)"
  "timers (settle key t r b) = AList.delete t (timers b)"
  "resolved (settle key t r b) = resolved b @ [(t, r)]"
  "clock (settle key t r b) = clock b"
  "next_handle (settle key t r b) = next_handle b"
  by (simp_all add: settle_def)

lemma response_found:
  assumes "find_pending (pendingPermissionRequests b) sid rid = Some (key, e)"
    and "p_resolve e = p_timeout e"
  shows "handlePermissionResponse sid rid r b = (True, settle key (p_timeout e) r b)"
  using assms
  by (simp add: handlePermissionResponse_def settle_def clearTimeout_def call_resolve_def Let_def)

lemma response_not_found:
  assumes "find_pending (pendingPermissionRequests b) sid rid = None"
  shows "handlePermissionResponse sid rid r b = (False, b)"
  using assms by (simp add: handlePermissionResponse_def)

lemma fire_due:
  assumes "map_of (timers b) t = Some tm" and "due tm \<le> clock b" and "timer_resolve tm = t"
  shows "fire t b = settle (timer_key tm) t (Deny ''Permission request timed out'') b"
  using assms by (simp add: fire_def settle_def timeout_callback_def call_resolve_def)

lemma fire_idle:
  assumes "map_of (timers b) t = None \<or> (\<exists>tm. map_of (timers b) t = Some tm \<and> \<not> due tm \<le> clock b)"
  shows "fire t b = b"
  using assms by (auto simp add: fire_def)

lemma broker_inv_settle:
  assumes "broker_inv b"
    and A: "t \<notin> fst ` set (resolved b)" "t < next_handle b"
    and B: "\<And>k' e'. (k', e') \<in> set (pendingPermissionRequests b) \<Longrightarrow> p_timeout e' = t \<Longrightarrow> k' = key"
  shows "broker_inv (settle key t r b)"
proof (rule broker_invI, unfold settle_fields)
  note inv = broker_invD [OF assms(1)]
  let ?P = "pendingPermissionRequests b"
  have P: "(k', e') \<in> set ?P \<and> k' \<noteq> key" if "(k', e') \<in> set (AList.delete key ?P)" for k' e'
    using that by (simp add: set_delete)
  have T: "(t', tm) \<in> set (timers b) \<and> t' \<noteq> t" if "(t', tm) \<in> set (AList.delete t (timers b))" for t' tm
    using that by (simp add: set_delete)
  show "distinct (map fst (AList.delete key ?P))"
    using inv(1) by (simp add: distinct_delete)
  show "distinct (map fst (AList.delete t (timers b)))"
    using inv(2) by (simp add: distinct_delete)
  show "distinct (map fst (resolved b @ [(t, r)]))"
    using inv(3) A(1) by simp
  show "p_resolve e' = p_timeout e' \<and> p_timeout e' < next_handle b \<and>
        p_timeout e' \<notin> fst ` set (resolved b @ [(t, r)])"
    if "(k', e') \<in> set (AList.delete key ?P)" for k' e'
  proof -
    from P [OF that] have m: "(k', e') \<in> set ?P" and n: "k' \<noteq> key" by simp_all
    from B [OF m] n have "p_timeout e' \<noteq> t" by blast
    with inv(4) [OF m] show ?thesis by simp
  qed
  show "timer_resolve tm = t' \<and> t' < next_handle b \<and> t' \<notin> fst ` set (resolved b @ [(t, r)])"
    if "(t', tm) \<in> set (AList.delete t (timers b))" for t' tm
    using T [OF that] inv(5) [of t' tm] by simp
  show "p < next_handle b" if "(p, r') \<in> set (resolved b @ [(t, r)])" for p r'
    using that inv(6) [of p r'] A(2) by auto
  show "timer_key tm = k'"
    if "(k', e') \<in> set (AList.delete key ?P)"
      and "(p_timeout e', tm) \<in> set (AList.delete t (timers b))" for k' e' tm
    using P [OF that(1)] T [OF that(2)] inv(7) by blast
  show "k1 = k2"
    if "(k1, e1) \<in> set (AList.delete key ?P)" and "(k2, e2) \<in> set (AList.delete key ?P)"
      and "p_timeout e1 = p_timeout e2" for k1 e1 k2 e2
    using P [OF that(1)] P [OF that(2)] that(3) inv(8) by blast
qed

lemma broker_inv_response:
  assumes "broker_inv b"
  shows "broker_inv (snd (handlePermissionResponse sid rid r b))"
proof (cases "find_pending (pendingPermissionRequests b) sid rid")
  case None
  with assms show ?thesis by (simp add: response_not_found)
next
  case (Some ke)
  obtain key e where ke: "ke = (key, e)" by (cases ke)
  note inv = broker_invD [OF assms]
  from Some ke have f: "find_pending (pendingPermissionRequests b) sid rid = Some (key, e)" by simp
  from find_pending_Some [OF f] have m: "(key, e) \<in> set (pendingPermissionRequests b)" by simp
  from inv(4) [OF m] have e: "p_resolve e = p_timeout e" "p_timeout e < next_handle b"
    "p_timeout e \<notin> fst ` set (resolved b)" by simp_all
  have "broker_inv (settle key (p_timeout e) r b)"
    using assms e(3) e(2)
  proof (rule broker_inv_settle)
    fix k' e' assume "(k', e') \<in> set (pendingPermissionRequests b)" "p_timeout e' = p_timeout e"
    with m inv(8) show "k' = key" by blast
  qed
  then show ?thesis by (simp add: response_found [OF f e(1)])
qed

lemma broker_inv_fire:
  assumes "broker_inv b"
  shows "broker_inv (fire t b)"
proof (cases "map_of (timers b) t")
  case None
  with assms show ?thesis by (simp add: fire_idle)
next
  case (Some tm)
  note inv = broker_invD [OF assms]
  from Some have m: "(t, tm) \<in> set (timers b)" by (rule map_of_SomeD)
  show ?thesis
  proof (cases "due tm \<le> clock b")
    case False
    with Some assms show ?thesis by (simp add: fire_idle)
  next
    case True
    from inv(5) [OF m] have t: "timer_resolve tm = t" "t < next_handle b"
      "t \<notin> fst ` set (resolved b)" by simp_all
    have "broker_inv (settle (timer_key tm) t (Deny ''Permission request timed out'') b)"
      using assms t(3) t(2)
    proof (rule broker_inv_settle)
      fix k' e' assume "(k', e') \<in> set (pendingPermissionRequests b)" "p_timeout e' = t"
      with m inv(7) show "k' = timer_key tm" by blast
    qed
    then show ?thesis by (simp add: fire_due [OF Some True t(1)])
  qed
qed

lemma broker_inv_fold_fire:
  "broker_inv b \<Longrightarrow> broker_inv (fold fire ts b)"
  by (induction ts arbitrary: b) (simp_all add: broker_inv_fire)

lemma broker_inv_elapse:
  assumes "broker_inv b"
  shows "broker_inv (elapse d b)"
proof -
  have "broker_inv (b\<lparr>clock := clock b + d\<rparr>)"
    using assms by (simp add: broker_inv_def)
  then show ?thesis
    by (simp add: elapse_def Let_def broker_inv_fold_fire)
qed

lemma broker_inv_step:
  "broker_inv b \<Longrightarrow> broker_inv (broker_step ev b)"
  by (cases ev) (simp_all add: broker_inv_register broker_inv_response broker_inv_elapse)

lemma broker_inv_steps:
  "broker_inv b \<Longrightarrow> broker_inv (fold broker_step evs b)"
  by (induction evs arbitrary: b) (simp_all add: broker_inv_step)

lemma broker_inv_run: "broker_inv (broker_run evs)"
  by (simp add: broker_run_def broker_inv_steps broker_inv_empty)

section \<open>Time and the log of decisions\<close>

lemma fire_clock: "clock (fire t b) = clock b"
  by (simp add: fire_def timeout_callback_def call_resolve_def split: option.splits)

lemma fold_fire_clock: "clock (fold fire ts b) = clock b"
  by (induction ts arbitrary: b) (simp_all add: fire_clock)

lemma response_clock: "clock (snd (handlePermissionResponse sid rid r b)) = clock b"
  by (simp add: handlePermissionResponse_def clearTimeout_def call_resolve_def Let_def
      split: option.splits)

lemma step_clock: "clock (broker_step ev b) = clock b + elapsed [ev]"
  by (cases ev) (simp_all add: register_fields response_clock elapse_def Let_def fold_fire_clock)

lemma elapsed_append: "elapsed (xs @ ys) = elapsed xs + elapsed ys"
  by (induction xs rule: elapsed.induct) simp_all

lemma answers_append: "answers sid rid (xs @ ys) = answers sid rid xs @ answers sid rid ys"
  by (induction sid rid xs rule: answers.induct) simp_all

lemma requested_append: "requested (xs @ ys) = requested xs @ requested ys"
  by (induction xs rule: requested.induct) simp_all

lemma steps_clock: "clock (fold broker_step evs b) = clock b + elapsed evs"
proof (induction evs arbitrary: b)
  case Nil
  show ?case by simp
next
  case (Cons ev evs)
  have "elapsed (ev # evs) = elapsed [ev] + elapsed evs"
    using elapsed_append [of "[ev]" evs] by simp
  with Cons show ?case by (simp add: step_clock)
qed

lemma fire_resolved: "\<exists>xs. resolved (fire t b) = resolved b @ xs"
  by (simp add: fire_def timeout_callback_def call_resolve_def split: option.splits)

lemma fold_fire_resolved: "\<exists>xs. resolved (fold fire ts b) = resolved b @ xs"
proof (induction ts arbitrary: b)
  case Nil
  show ?case by simp
next
  case (Cons t ts)
  obtain xs where "resolved (fire t b) = resolved b @ xs" using fire_resolved by blast
  moreover obtain ys where "resolved (fold fire ts (fire t b)) = resolved (fire t b) @ ys"
    using Cons by blast
  ultimately show ?case by simp
qed

lemma step_resolved: "\<exists>xs. resolved (broker_step ev b) = resolved b @ xs"
proof (cases ev)
  case (Request resume sid uuid)
  then show ?thesis by (simp add: register_fields)
next
  case (Response sid rid r)
  then show ?thesis
    by (simp add: handlePermissionResponse_def clearTimeout_def call_resolve_def Let_def
        split: option.splits)
next
  case (Elapse d)
  then show ?thesis
    using fold_fire_resolved [of "map fst (timers b)" "b\<lparr>clock := clock b + d\<rparr>"]
    by (simp add: elapse_def Let_def)
qed

lemma steps_resolved: "\<exists>xs. resolved (fold broker_step evs b) = resolved b @ xs"
proof (induction evs arbitrary: b)
  case Nil
  show ?case by simp
next
  case (Cons ev evs)
  obtain xs where "resolved (broker_step ev b) = resolved b @ xs" using step_resolved by blast
  moreover obtain ys where
    "resolved (fold broker_step evs (broker_step ev b)) = resolved (broker_step ev b) @ ys"
    using Cons by blast
  ultimately show ?case by simp
qed

lemma decision_stable:
  assumes "decision b p = Some r"
  shows "decision (fold broker_step evs b) p = Some r"
proof -
  obtain xs where "resolved (fold broker_step evs b) = resolved b @ xs"
    using steps_resolved by blast
  with assms show ?thesis by (simp add: decision_def)
qed

section \<open>Timers that are due have fired\<close>

lemma fire_timers:
  "timers (fire t b) =
     (case map_of (timers b) t of
        None \<Rightarrow> timers b
      | Some tm \<Rightarrow> if due tm \<le> clock b then AList.delete t (timers b) else timers b)"
  by (simp add: fire_def timeout_callback_def call_resolve_def split: option.splits)

lemma fold_fire_overdue:
  assumes "distinct (map fst (timers b))"
    and "\<And>t tm. (t, tm) \<in> set (timers b) \<Longrightarrow> t \<notin> set ts \<Longrightarrow> clock b < due tm"
  shows "(t, tm) \<in> set (timers (fold fire ts b)) \<Longrightarrow> clock b < due tm"
  using assms
proof (induction ts arbitrary: b)
  case Nil
  then show ?case by simp
next
  case (Cons u ts)
  have d: "distinct (map fst (timers (fire u b)))"
    using Cons.prems(2) by (simp add: fire_timers distinct_delete split: option.splits)
  have sub: "set (timers (fire u b)) \<subseteq> set (timers b)"
    by (auto simp add: fire_timers set_delete split: option.splits)
  have rest: "clock (fire u b) < due tm'"
    if m: "(t', tm') \<in> set (timers (fire u b))" and n: "t' \<notin> set ts" for t' tm'
  proof (cases "t' = u")
    case False
    with m n sub Cons.prems(3) [of t' tm'] show ?thesis by (auto simp add: fire_clock)
  next
    case True
    from m sub have mb: "(u, tm') \<in> set (timers b)" using True by blast
    with Cons.prems(2) have mo: "map_of (timers b) u = Some tm'" by simp
    show ?thesis
    proof (cases "due tm' \<le> clock b")
      case True
      with mo have "timers (fire u b) = AList.delete u (timers b)" by (simp add: fire_timers)
      with m \<open>t' = u\<close> show ?thesis by (simp add: set_delete)
    next
      case False
      then show ?thesis by (simp add: fire_clock)
    qed
  qed
  from Cons.prems(1) have "(t, tm) \<in> set (timers (fold fire ts (fire u b)))" by simp
  from Cons.IH [OF this d rest] show ?case by (simp add: fire_clock)
qed

lemma no_overdue_elapse:
  assumes "distinct (map fst (timers b))"
  shows "no_overdue (elapse d b)"
  unfolding no_overdue_def elapse_def Let_def
proof (intro allI impI)
  fix t tm
  let ?b = "b\<lparr>clock := clock b + d\<rparr>"
  assume m: "(t, tm) \<in> set (timers (fold fire (map fst (timers ?b)) ?b))"
  have sub: "(t', tm') \<in> set (timers ?b) \<Longrightarrow> t' \<notin> set (map fst (timers ?b)) \<Longrightarrow> clock ?b < due tm'"
    for t' tm' by force
  from fold_fire_overdue [OF _ sub m] assms
  show "clock (fold fire (map fst (timers ?b)) ?b) < due tm"
    by (simp add: fold_fire_clock)
qed

lemma no_overdue_register:
  assumes "no_overdue b"
  shows "no_overdue (snd (register k rid sid b))"
  using assms by (auto simp add: no_overdue_def register_fields approval_timeout_def)

lemma no_overdue_response:
  assumes "no_overdue b"
  shows "no_overdue (snd (handlePermissionResponse sid rid r b))"
  using assms
  by (auto simp add: no_overdue_def handlePermissionResponse_def clearTimeout_def
      call_resolve_def Let_def set_delete split: option.splits)

lemma no_overdue_step:
  "broker_inv b \<Longrightarrow> no_overdue b \<Longrightarrow> no_overdue (broker_step ev b)"
  by (cases ev)
    (simp_all add: no_overdue_register no_overdue_response no_overdue_elapse broker_invD(2))

lemma no_overdue_steps:
  "broker_inv b \<Longrightarrow> no_overdue b \<Longrightarrow> no_overdue (fold broker_step evs b)"
  by (induction evs arbitrary: b) (simp_all add: no_overdue_step broker_inv_step)

lemma no_overdue_run: "no_overdue (broker_run evs)"
proof -
  have "no_overdue empty_broker"
    by (simp add: no_overdue_def empty_broker_def)
  then show ?thesis
    unfolding broker_run_def by (rule no_overdue_steps [OF broker_inv_empty])
qed

section \<open>One approval, from its request on\<close>

lemma approval_stateI:
  assumes "h < next_handle b"
    and "\<And>k e. (k, e) \<in> set (pendingPermissionRequests b) \<Longrightarrow> p_requestId e = rid \<Longrightarrow>
           p_timeout e = h"
    and "\<And>k e. (k, e) \<in> set (pendingPermissionRequests b) \<Longrightarrow> p_timeout e = h \<Longrightarrow>
           p_sessionId e = sid \<and> p_requestId e = rid"
    and "\<And>tm. (h, tm) \<in> set (timers b) \<Longrightarrow> due tm = D"
    and "h \<in> fst ` set (timers b) \<or>
         (\<exists>r\<in>R. map_of (resolved b) h = Some r) \<and>
         (\<forall>k e. (k, e) \<in> set (pendingPermissionRequests b) \<longrightarrow> p_requestId e \<noteq> rid)"
  shows "approval_state h sid rid D R b"
  unfolding approval_state_def
  apply (intro conjI allI impI)
  using assms apply blast+
  done

lemma approval_stateD:
  assumes "approval_state h sid rid D R b"
  shows "h < next_handle b"
    and "\<And>k e. (k, e) \<in> set (pendingPermissionRequests b) \<Longrightarrow> p_requestId e = rid \<Longrightarrow>
           p_timeout e = h"
    and "\<And>k e. (k, e) \<in> set (pendingPermissionRequests b) \<Longrightarrow> p_timeout e = h \<Longrightarrow>
           p_sessionId e = sid \<and> p_requestId e = rid"
    and "\<And>tm. (h, tm) \<in> set (timers b) \<Longrightarrow> due tm = D"
    and "h \<in> fst ` set (timers b) \<or>
         (\<exists>r\<in>R. map_of (resolved b) h = Some r) \<and>
         (\<forall>k e. (k, e) \<in> set (pendingPermissionRequests b) \<longrightarrow> p_requestId e \<noteq> rid)"
  using assms unfolding approval_state_def by blast+

lemma approval_state_begin:
  assumes "broker_inv b"
    and fresh: "\<And>k e. (k, e) \<in> set (pendingPermissionRequests b) \<Longrightarrow> p_requestId e \<noteq> rid"
  shows "approval_state (next_handle b) sid rid (clock b + approval_timeout) R
           (snd (register key rid sid b))"
proof (rule approval_stateI, unfold register_fields)
  let ?h = "next_handle b"
  let ?e = "\<lparr>p_requestId = rid, p_sessionId = sid, p_resolve = ?h, p_timeout = ?h\<rparr>"
  let ?P = "pendingPermissionRequests b"
  let ?tm = "\<lparr>due = clock b + approval_timeout, timer_key = key, timer_resolve = ?h\<rparr>"
  note inv = broker_invD [OF assms(1)]
  have old: "e' = ?e \<or> (k', e') \<in> set ?P"
    if "(k', e') \<in> set (AList.update key ?e ?P)" for k' e'
    using in_update_cases [OF that] by blast
  show "?h < Suc ?h" by simp
  show "p_timeout e' = ?h"
    if "(k', e') \<in> set (AList.update key ?e ?P)" and "p_requestId e' = rid" for k' e'
  proof -
    from old [OF that(1)] show ?thesis
    proof
      assume "e' = ?e"
      then have "p_timeout e' = p_timeout ?e" by (rule arg_cong)
      then show ?thesis by simp
    next
      assume "(k', e') \<in> set ?P"
      with fresh that(2) show ?thesis by blast
    qed
  qed
  show "p_sessionId e' = sid \<and> p_requestId e' = rid"
    if "(k', e') \<in> set (AList.update key ?e ?P)" and "p_timeout e' = ?h" for k' e'
  proof -
    from old [OF that(1)] show ?thesis
    proof
      assume "e' = ?e"
      then have "p_sessionId e' = p_sessionId ?e" "p_requestId e' = p_requestId ?e" by simp_all
      then show ?thesis by simp
    next
      assume "(k', e') \<in> set ?P"
      with inv(4) [of k' e'] that(2) show ?thesis by simp
    qed
  qed
  show "due tm = clock b + approval_timeout" if "(?h, tm) \<in> set (timers b @ [(?h, ?tm)])" for tm
    using that inv(5) [of ?h tm] by auto
  show "?h \<in> fst ` set (timers b @ [(?h, ?tm)]) \<or>
        (\<exists>r\<in>R. map_of (resolved b) ?h = Some r) \<and>
        (\<forall>k e. (k, e) \<in> set (AList.update key ?e ?P) \<longrightarrow> p_requestId e \<noteq> rid)"
    by simp
qed

lemma approval_state_register:
  assumes "approval_state h sid rid D R b" and "u \<noteq> rid"
  shows "approval_state h sid rid D R (snd (register k u sid' b))"
proof (rule approval_stateI, unfold register_fields)
  let ?n = "next_handle b"
  let ?e = "\<lparr>p_requestId = u, p_sessionId = sid', p_resolve = ?n, p_timeout = ?n\<rparr>"
  let ?P = "pendingPermissionRequests b"
  let ?tm = "\<lparr>due = clock b + approval_timeout, timer_key = k, timer_resolve = ?n\<rparr>"
  note a = approval_stateD [OF assms(1)]
  have old: "e' = ?e \<or> (k', e') \<in> set ?P"
    if "(k', e') \<in> set (AList.update k ?e ?P)" for k' e'
    using in_update_cases [OF that] by blast
  show "h < Suc ?n" using a(1) by simp
  show "p_timeout e' = h"
    if "(k', e') \<in> set (AList.update k ?e ?P)" and "p_requestId e' = rid" for k' e'
    using old [OF that(1)] that(2) assms(2) a(2) [of k' e'] by auto
  show "p_sessionId e' = sid \<and> p_requestId e' = rid"
    if "(k', e') \<in> set (AList.update k ?e ?P)" and "p_timeout e' = h" for k' e'
    using old [OF that(1)] that(2) a(1) a(3) [of k' e'] by auto
  show "due tm = D" if "(h, tm) \<in> set (timers b @ [(?n, ?tm)])" for tm
    using that a(1) a(4) [of tm] by auto
  show "h \<in> fst ` set (timers b @ [(?n, ?tm)]) \<or>
        (\<exists>r\<in>R. map_of (resolved b) h = Some r) \<and>
        (\<forall>k' e'. (k', e') \<in> set (AList.update k ?e ?P) \<longrightarrow> p_requestId e' \<noteq> rid)"
  proof (cases "h \<in> fst ` set (timers b)")
    case True
    then show ?thesis by simp
  next
    case False
    with a(5) have s: "\<exists>r\<in>R. map_of (resolved b) h = Some r"
      and n: "\<And>k' e'. (k', e') \<in> set ?P \<Longrightarrow> p_requestId e' \<noteq> rid" by blast+
    have "p_requestId e' \<noteq> rid" if "(k', e') \<in> set (AList.update k ?e ?P)" for k' e'
      using old [OF that] n [of k' e'] assms(2) by auto
    with s show ?thesis by blast
  qed
qed

lemma approval_state_settle_other:
  assumes "approval_state h sid rid D R b" and "t \<noteq> h"
  shows "approval_state h sid rid D R (settle key t r b)"
proof (rule approval_stateI, unfold settle_fields)
  note a = approval_stateD [OF assms(1)]
  let ?P = "pendingPermissionRequests b"
  have P: "(k', e') \<in> set ?P" if "(k', e') \<in> set (AList.delete key ?P)" for k' e'
    using that by (simp add: set_delete)
  show "h < next_handle b" by (rule a(1))
  show "p_timeout e' = h"
    if "(k', e') \<in> set (AList.delete key ?P)" and "p_requestId e' = rid" for k' e'
    using P [OF that(1)] that(2) a(2) by blast
  show "p_sessionId e' = sid \<and> p_requestId e' = rid"
    if "(k', e') \<in> set (AList.delete key ?P)" and "p_timeout e' = h" for k' e'
    using P [OF that(1)] that(2) a(3) by blast
  show "due tm = D" if "(h, tm) \<in> set (AList.delete t (timers b))" for tm
    using that a(4) by (simp add: set_delete)
  show "h \<in> fst ` set (AList.delete t (timers b)) \<or>
        (\<exists>r'\<in>R. map_of (resolved b @ [(t, r)]) h = Some r') \<and>
        (\<forall>k' e'. (k', e') \<in> set (AList.delete key ?P) \<longrightarrow> p_requestId e' \<noteq> rid)"
  proof (cases "h \<in> fst ` set (timers b)")
    case True
    with assms(2) have "h \<in> fst ` set (AList.delete t (timers b))"
      by (force simp add: set_delete)
    then show ?thesis by simp
  next
    case False
    with a(5) have s: "\<exists>r\<in>R. map_of (resolved b) h = Some r"
      and n: "\<And>k' e'. (k', e') \<in> set ?P \<Longrightarrow> p_requestId e' \<noteq> rid" by blast+
    from s have "\<exists>r'\<in>R. map_of (resolved b @ [(t, r)]) h = Some r'" by auto
    moreover have "p_requestId e' \<noteq> rid" if "(k', e') \<in> set (AList.delete key ?P)" for k' e'
      using P [OF that] n by blast
    ultimately show ?thesis by blast
  qed
qed

lemma approval_state_settle_this:
  assumes "approval_state h sid rid D R b"
    and "h \<notin> fst ` set (resolved b)"
    and "r \<in> R"
    and B: "\<And>k' e'. (k', e') \<in> set (pendingPermissionRequests b) \<Longrightarrow> p_timeout e' = h \<Longrightarrow> k' = key"
  shows "approval_state h sid rid D R (settle key h r b)"
proof (rule approval_stateI, unfold settle_fields)
  note a = approval_stateD [OF assms(1)]
  let ?P = "pendingPermissionRequests b"
  have P: "(k', e') \<in> set ?P \<and> k' \<noteq> key" if "(k', e') \<in> set (AList.delete key ?P)" for k' e'
    using that by (simp add: set_delete)
  show "h < next_handle b" by (rule a(1))
  show "p_timeout e' = h"
    if "(k', e') \<in> set (AList.delete key ?P)" and "p_requestId e' = rid" for k' e'
    using P [OF that(1)] that(2) a(2) by blast
  show "p_sessionId e' = sid \<and> p_requestId e' = rid"
    if "(k', e') \<in> set (AList.delete key ?P)" and "p_timeout e' = h" for k' e'
    using P [OF that(1)] that(2) a(3) by blast
  show "due tm = D" if "(h, tm) \<in> set (AList.delete h (timers b))" for tm
    using that by (simp add: set_delete)
  have "map_of (resolved b) h = None"
    using assms(2) by (simp add: map_of_eq_None_iff)
  then have "map_of (resolved b @ [(h, r)]) h = Some r" by (simp add: map_add_def)
  moreover have "p_requestId e' \<noteq> rid" if "(k', e') \<in> set (AList.delete key ?P)" for k' e'
    using P [OF that] a(2) [of k' e'] B [of k' e'] by blast
  ultimately show "h \<in> fst ` set (AList.delete h (timers b)) \<or>
        (\<exists>r'\<in>R. map_of (resolved b @ [(h, r)]) h = Some r') \<and>
        (\<forall>k' e'. (k', e') \<in> set (AList.delete key ?P) \<longrightarrow> p_requestId e' \<noteq> rid)"
    using assms(3) by blast
qed

lemma approval_state_response:
  assumes a: "approval_state h sid rid D R b" and i: "broker_inv b"
    and o: "sid' = sid \<and> rid' = rid \<Longrightarrow> r \<in> R"
  shows "approval_state h sid rid D R (snd (handlePermissionResponse sid' rid' r b))"
proof (cases "find_pending (pendingPermissionRequests b) sid' rid'")
  case None
  with a show ?thesis by (simp add: response_not_found)
next
  case (Some ke)
  obtain key e where ke: "ke = (key, e)" by (cases ke)
  note inv = broker_invD [OF i]
  from Some ke have f: "find_pending (pendingPermissionRequests b) sid' rid' = Some (key, e)"
    by simp
  note fe = find_pending_Some [OF f]
  from fe have m: "(key, e) \<in> set (pendingPermissionRequests b)" by simp
  from inv(4) [OF m] have e: "p_resolve e = p_timeout e"
    "p_timeout e \<notin> fst ` set (resolved b)" by simp_all
  have "approval_state h sid rid D R (settle key (p_timeout e) r b)"
  proof (cases "p_timeout e = h")
    case False
    with a show ?thesis by (rule approval_state_settle_other)
  next
    case True
    from approval_stateD(3) [OF a m True] fe have "sid' = sid \<and> rid' = rid" by simp
    then have r: "r \<in> R" by (rule o)
    have "approval_state h sid rid D R (settle key h r b)"
      using a e(2) [unfolded True] r
    proof (rule approval_state_settle_this)
      fix k' e' assume "(k', e') \<in> set (pendingPermissionRequests b)" "p_timeout e' = h"
      with m True inv(8) show "k' = key" by blast
    qed
    with True show ?thesis by simp
  qed
  then show ?thesis by (simp add: response_found [OF f e(1)])
qed

lemma approval_state_fire:
  assumes a: "approval_state h sid rid D R b" and i: "broker_inv b"
    and o: "Deny ''Permission request timed out'' \<in> R"
  shows "approval_state h sid rid D R (fire t b)"
proof (cases "map_of (timers b) t")
  case None
  with a show ?thesis by (simp add: fire_idle)
next
  case (Some tm)
  note inv = broker_invD [OF i]
  from Some have m: "(t, tm) \<in> set (timers b)" by (rule map_of_SomeD)
  show ?thesis
  proof (cases "due tm \<le> clock b")
    case False
    with Some a show ?thesis by (simp add: fire_idle)
  next
    case True
    from inv(5) [OF m] have t: "timer_resolve tm = t" "t \<notin> fst ` set (resolved b)" by simp_all
    have "approval_state h sid rid D R
            (settle (timer_key tm) t (Deny ''Permission request timed out'') b)"
    proof (cases "t = h")
      case False
      with a show ?thesis by (rule approval_state_settle_other)
    next
      case th: True
      have "approval_state h sid rid D R
              (settle (timer_key tm) h (Deny ''Permission request timed out'') b)"
        using a t(2) [unfolded th] o
      proof (rule approval_state_settle_this)
        fix k' e' assume "(k', e') \<in> set (pendingPermissionRequests b)" "p_timeout e' = h"
        with m th inv(7) show "k' = timer_key tm" by blast
      qed
      with th show ?thesis by simp
    qed
    then show ?thesis by (simp add: fire_due [OF Some True t(1)])
  qed
qed

lemma approval_state_fold_fire:
  assumes "Deny ''Permission request timed out'' \<in> R"
  shows "approval_state h sid rid D R b \<Longrightarrow> broker_inv b \<Longrightarrow>
         approval_state h sid rid D R (fold fire ts b)"
  using assms
  by (induction ts arbitrary: b) (simp_all add: approval_state_fire broker_inv_fire)

lemma approval_state_elapse:
  assumes "approval_state h sid rid D R b" and "broker_inv b"
    and "Deny ''Permission request timed out'' \<in> R"
  shows "approval_state h sid rid D R (elapse d b)"
proof -
  have "approval_state h sid rid D R (b\<lparr>clock := clock b + d\<rparr>)"
    using assms(1) by (simp add: approval_state_def)
  moreover have "broker_inv (b\<lparr>clock := clock b + d\<rparr>)"
    using assms(2) by (simp add: broker_inv_def)
  ultimately show ?thesis
    using assms(3) by (simp add: elapse_def Let_def approval_state_fold_fire)
qed

lemma approval_state_step:
  assumes "approval_state h sid rid D R b" and "broker_inv b"
    and "Deny ''Permission request timed out'' \<in> R"
    and "rid \<notin> set (requested [ev])"
    and "set (answers sid rid [ev]) \<subseteq> R"
  shows "approval_state h sid rid D R (broker_step ev b)"
proof (cases ev)
  case (Request resume' sid' u)
  with assms(4) have "u \<noteq> rid" by simp
  with assms(1) Request show ?thesis by (simp add: approval_state_register)
next
  case (Response sid' rid' r)
  with assms(5) have "sid' = sid \<and> rid' = rid \<Longrightarrow> r \<in> R" by simp
  with assms(1,2) Response show ?thesis by (simp add: approval_state_response)
next
  case (Elapse d)
  with assms(1,2,3) show ?thesis by (simp add: approval_state_elapse)
qed

lemma approval_state_steps:
  assumes "Deny ''Permission request timed out'' \<in> R"
  shows "approval_state h sid rid D R b \<Longrightarrow> broker_inv b \<Longrightarrow>
         rid \<notin> set (requested evs) \<Longrightarrow> set (answers sid rid evs) \<subseteq> R \<Longrightarrow>
         approval_state h sid rid D R (fold broker_step evs b)"
proof (induction evs arbitrary: b)
  case Nil
  then show ?case by simp
next
  case (Cons ev evs)
  have r: "requested (ev # evs) = requested [ev] @ requested evs"
    using requested_append [of "[ev]" evs] by simp
  have n: "answers sid rid (ev # evs) = answers sid rid [ev] @ answers sid rid evs"
    using answers_append [of sid rid "[ev]" evs] by simp
  from Cons.prems(3) r have r1: "rid \<notin> set (requested [ev])" and r2: "rid \<notin> set (requested evs)"
    by simp_all
  from Cons.prems(4) n have n1: "set (answers sid rid [ev]) \<subseteq> R"
    and n2: "set (answers sid rid evs) \<subseteq> R" by simp_all
  have "approval_state h sid rid D R (broker_step ev b)"
    using Cons.prems(1,2) assms r1 n1 by (rule approval_state_step)
  moreover have "broker_inv (broker_step ev b)"
    using Cons.prems(2) by (rule broker_inv_step)
  ultimately have "approval_state h sid rid D R (fold broker_step evs (broker_step ev b))"
    using r2 n2 by (rule Cons.IH)
  then show ?case by simp
qed

text \<open>The identifiers in the registry are among those given to requests.\<close>

lemma fire_pending_subset:
  "set (pendingPermissionRequests (fire t b)) \<subseteq> set (pendingPermissionRequests b)"
  by (auto simp add: fire_def timeout_callback_def call_resolve_def set_delete split: option.splits)

lemma fold_fire_pending_subset:
  "set (pendingPermissionRequests (fold fire ts b)) \<subseteq> set (pendingPermissionRequests b)"
proof (induction ts arbitrary: b)
  case Nil
  show ?case by simp
next
  case (Cons t ts)
  from Cons [of "fire t b"] fire_pending_subset [of t b] show ?case by auto
qed

lemma step_pending_ids:
  assumes "(k, e) \<in> set (pendingPermissionRequests (broker_step ev b))"
  shows "p_requestId e \<in> set (requested [ev]) \<or> (k, e) \<in> set (pendingPermissionRequests b)"
proof (cases ev)
  case (Request resume sid uuid)
  with assms in_update_cases [of "(k, e)"] show ?thesis
    by (fastforce simp add: register_fields)
next
  case (Response sid rid r)
  with assms show ?thesis
    by (auto simp add: handlePermissionResponse_def clearTimeout_def call_resolve_def Let_def
        set_delete split: option.splits)
next
  case (Elapse d)
  with assms fold_fire_pending_subset [of "map fst (timers b)" "b\<lparr>clock := clock b + d\<rparr>"]
  show ?thesis by (auto simp add: elapse_def Let_def)
qed

lemma steps_pending_ids:
  "(k, e) \<in> set (pendingPermissionRequests (fold broker_step evs b)) \<Longrightarrow>
   p_requestId e \<in> set (requested evs) \<or> (k, e) \<in> set (pendingPermissionRequests b)"
proof (induction evs arbitrary: b)
  case Nil
  then show ?case by simp
next
  case (Cons ev evs)
  have r: "requested (ev # evs) = requested [ev] @ requested evs"
    using requested_append [of "[ev]" evs] by simp
  from Cons.prems have "(k, e) \<in> set (pendingPermissionRequests (fold broker_step evs (broker_step ev b)))"
    by simp
  from Cons.IH [OF this] step_pending_ids [of k e ev b] r show ?case by auto
qed

lemma run_pending_ids:
  "(k, e) \<in> set (pendingPermissionRequests (broker_run evs)) \<Longrightarrow> p_requestId e \<in> set (requested evs)"
  using steps_pending_ids [of k e evs empty_broker]
  by (simp add: broker_run_def) (simp add: empty_broker_def)
lemma broker_run_append:
  "broker_run (evs @ evs') = fold broker_step evs' (broker_run evs)"
  by (simp add: broker_run_def)

lemma approval_tracked:
  assumes d: "distinct (requested (evs @ Request resume sid rid # evs'))"
  shows "approval_state (next_handle (broker_run evs)) sid rid
           (clock (broker_run evs) + approval_timeout)
           (insert (Deny ''Permission request timed out'') (set (answers sid rid evs')))
           (broker_run (evs @ Request resume sid rid # evs'))"
proof -
  let ?b0 = "broker_run evs"
  let ?key = "template resume @ '':'' @ rid"
  let ?b1 = "snd (register ?key rid sid ?b0)"
  let ?R = "insert (Deny ''Permission request timed out'') (set (answers sid rid evs'))"
  have r: "requested (evs @ Request resume sid rid # evs') = requested evs @ rid # requested evs'"
    by (simp add: requested_append)
  from d r have n0: "rid \<notin> set (requested evs)" and n1: "rid \<notin> set (requested evs')"
    by simp_all
  have fresh: "p_requestId e \<noteq> rid" if "(k, e) \<in> set (pendingPermissionRequests ?b0)" for k e
    using run_pending_ids [OF that] n0 by blast
  have "approval_state (next_handle ?b0) sid rid (clock ?b0 + approval_timeout) ?R ?b1"
    using broker_inv_run fresh by (rule approval_state_begin)
  moreover have "broker_inv ?b1"
    using broker_inv_run by (rule broker_inv_register)
  moreover have "Deny ''Permission request timed out'' \<in> ?R" by simp
  moreover have "set (answers sid rid evs') \<subseteq> ?R" by blast
  ultimately have "approval_state (next_handle ?b0) sid rid (clock ?b0 + approval_timeout) ?R
      (fold broker_step evs' ?b1)"
    using n1 approval_state_steps by blast
  moreover have "broker_run (evs @ Request resume sid rid # evs') = fold broker_step evs' ?b1"
    by (simp add: broker_run_def)
  ultimately show ?thesis by simp
qed

lemma approval_decided:
  assumes a: "approval_state h sid rid D R b" and i: "broker_inv b"
    and s: "decision b h = Some r"
  shows "r \<in> R \<and> find_pending (pendingPermissionRequests b) sid rid = None \<and>
         h \<notin> fst ` set (timers b) \<and> (\<forall>r'. handlePermissionResponse sid rid r' b = (False, b))"
proof -
  from s have "(h, r) \<in> set (resolved b)"
    unfolding decision_def by (rule map_of_SomeD)
  then have hr: "h \<in> fst ` set (resolved b)" by force
  have nt: "h \<notin> fst ` set (timers b)"
  proof
    assume "h \<in> fst ` set (timers b)"
    then obtain tm where "(h, tm) \<in> set (timers b)" by auto
    from broker_invD(5) [OF i this] hr show False by simp
  qed
  with approval_stateD(5) [OF a] obtain r0 where r0: "r0 \<in> R" "map_of (resolved b) h = Some r0"
    and none: "\<And>k e. (k, e) \<in> set (pendingPermissionRequests b) \<Longrightarrow> p_requestId e \<noteq> rid"
    by blast
  from r0 s have "r \<in> R" by (simp add: decision_def)
  moreover have f: "find_pending (pendingPermissionRequests b) sid rid = None"
    unfolding find_pending_None using none by blast
  moreover have "\<forall>r'. handlePermissionResponse sid rid r' b = (False, b)"
    using f by (simp add: response_not_found)
  ultimately show ?thesis using nt by blast
qed

section \<open>Every approval is settled once\<close>

text \<open>
  For an approval-requiring tool and a known session, \<^const>\<open>canUseTool\<close> delivers the
  permission request, registers it with the broker and returns a pending promise: the one
  with the next handle.
\<close>

lemma canUseTool_registers:
  assumes "isApprovableTool tool" and "capturedSessionId s = Some sid" and "sid \<noteq> []"
  shows "canUseTool resume tool inp uuid s =
           (Awaiting (next_handle (permissions s)),
            s\<lparr>delivered := delivered s @
                 [(message permission_request (Some sid))
                    \<lparr>permissionPayload :=
                       Some \<lparr>toolName = tool, input = inp, requestId = uuid\<rparr>\<rparr>],
              permissions := broker_step (Request resume sid uuid) (permissions s)\<rparr>)"
proof -
  obtain h b where r: "register (template resume @ '':'' @ uuid) uuid sid (permissions s) = (h, b)"
    by (cases "register (template resume @ '':'' @ uuid) uuid sid (permissions s)")
  from r register_fields(6) [of "template resume @ '':'' @ uuid" uuid sid "permissions s"]
  have h: "h = next_handle (permissions s)" by simp
  from r have b: "b = snd (register (template resume @ '':'' @ uuid) uuid sid (permissions s))"
    by simp
  show ?thesis
    using assms r
    by (simp add: canUseTool_def truthy_def or_else_def sendMessage_def Let_def)
      (simp add: h b)
qed

text \<open>The operations of the broker, on a state given field by field.\<close>

lemma register_record:
  "register k rid sid
     \<lparr>pendingPermissionRequests = P, timers = T, resolved = R, clock = c, next_handle = n\<rparr> =
   (n, \<lparr>pendingPermissionRequests =
          AList.update k \<lparr>p_requestId = rid, p_sessionId = sid, p_resolve = n, p_timeout = n\<rparr> P,
        timers = T @ [(n, \<lparr>due = c + 100000, timer_key = k, timer_resolve = n\<rparr>)],
        resolved = R, clock = c, next_handle = Suc n\<rparr>)"
  by (simp add: register_def approval_timeout_def)

lemma response_record:
  "handlePermissionResponse sid rid r
     \<lparr>pendingPermissionRequests = P, timers = T, resolved = R, clock = c, next_handle = n\<rparr> =
   (case find_pending P sid rid of
      None \<Rightarrow> (False,
        \<lparr>pendingPermissionRequests = P, timers = T, resolved = R, clock = c, next_handle = n\<rparr>)
    | Some (key, p) \<Rightarrow> (True,
        \<lparr>pendingPermissionRequests = AList.delete key P, timers = AList.delete (p_timeout p) T,
         resolved = R @ [(p_resolve p, r)], clock = c, next_handle = n\<rparr>))"
  by (simp add: handlePermissionResponse_def clearTimeout_def call_resolve_def
      split: option.splits)

lemma fire_record:
  "fire t \<lparr>pendingPermissionRequests = P, timers = T, resolved = R, clock = c, next_handle = n\<rparr> =
   (case map_of T t of
      None \<Rightarrow>
        \<lparr>pendingPermissionRequests = P, timers = T, resolved = R, clock = c, next_handle = n\<rparr>
    | Some tm \<Rightarrow>
        if due tm \<le> c
        then \<lparr>pendingPermissionRequests = AList.delete (timer_key tm) P,
              timers = AList.delete t T,
              resolved = R @ [(timer_resolve tm, Deny ''Permission request timed out'')],
              clock = c, next_handle = n\<rparr>
        else \<lparr>pendingPermissionRequests = P, timers = T, resolved = R, clock = c,
               next_handle = n\<rparr>)"
  by (simp add: fire_def timeout_callback_def call_resolve_def split: option.splits)

lemma elapse_record:
  "elapse d \<lparr>pendingPermissionRequests = P, timers = T, resolved = R, clock = c, next_handle = n\<rparr> =
   fold fire (map fst T)
     \<lparr>pendingPermissionRequests = P, timers = T, resolved = R, clock = c + d, next_handle = n\<rparr>"
  by (simp add: elapse_def)

lemmas broker_eval =
  broker_run_def empty_broker_def register_record response_record fire_record elapse_record
  template_def decision_def

text \<open>
  C3. Take a history of the broker in which the identifiers given to requests are pairwise
  distinct, and in it the request for the pair \<open>(sid, rid)\<close>, whose promise is \<open>h\<close>. In the state
  reached, no resolver has been called twice: no approval is settled more than once. And if
  the promise \<open>h\<close> has a decision, then this decision is the denial of the timeout or a
  decision with which a caller answered the pair after the request; the registry has no
  entry for the pair; the timer of the approval is not armed; every call of
  \<^const>\<open>handlePermissionResponse\<close> for the pair returns false and leaves the broker, with its
  registry and its decisions, as it is; and the decision stays the same whatever happens
  to the broker later.
\<close>

theorem approval_settled_once:
  assumes "distinct (requested (evs @ Request resume sid rid # evs'))"
    and "h = next_handle (broker_run evs)"
    and "b = broker_run (evs @ Request resume sid rid # evs')"
  shows "distinct (map fst (resolved b)) \<and>
         (\<forall>r. decision b h = Some r \<longrightarrow>
            (r = Deny ''Permission request timed out'' \<or> r \<in> set (answers sid rid evs')) \<and>
            find_pending (pendingPermissionRequests b) sid rid = None \<and>
            h \<notin> fst ` set (timers b) \<and>
            (\<forall>r'. handlePermissionResponse sid rid r' b = (False, b)) \<and>
            (\<forall>later. decision (fold broker_step later b) h = Some r))"
proof (intro conjI allI impI)
  have i: "broker_inv b" unfolding assms(3) by (rule broker_inv_run)
  then show "distinct (map fst (resolved b))" by (rule broker_invD(3))
  fix r assume s: "decision b h = Some r"
  note a = approval_tracked [OF assms(1), folded assms(2,3)]
  note d = approval_decided [OF a i s]
  from d show "r = Deny ''Permission request timed out'' \<or> r \<in> set (answers sid rid evs')"
    by blast
  from d show "find_pending (pendingPermissionRequests b) sid rid = None" by blast
  from d show "h \<notin> fst ` set (timers b)" by blast
  from d show "handlePermissionResponse sid rid r' b = (False, b)" for r' by blast
  from s show "decision (fold broker_step later b) h = Some r" for later
    by (rule decision_stable)
qed

text \<open>
  A request that is denied by a caller: a second answer, which would allow it, is turned
  away, and so is the timeout after 100 seconds.
\<close>

theorem approval_settled_once_witness:
  "distinct (requested ([] @ Request (Some ''s1'') ''s1'' ''u1'' #
       [Response ''s1'' ''u1'' (Deny ''no''), Response ''s1'' ''u1'' (Allow JNull),
        Elapse 100000])) \<and>
   next_handle (broker_run []) = 0 \<and>
   decision (broker_run ([] @ Request (Some ''s1'') ''s1'' ''u1'' #
       [Response ''s1'' ''u1'' (Deny ''no''), Response ''s1'' ''u1'' (Allow JNull),
        Elapse 100000])) 0 = Some (Deny ''no'') \<and>
   find_pending (pendingPermissionRequests (broker_run ([] @ Request (Some ''s1'') ''s1'' ''u1'' #
       [Response ''s1'' ''u1'' (Deny ''no''), Response ''s1'' ''u1'' (Allow JNull),
        Elapse 100000]))) ''s1'' ''u1'' = None \<and>
   handlePermissionResponse ''s1'' ''u1'' (Allow JNull)
     (broker_run ([] @ Request (Some ''s1'') ''s1'' ''u1'' #
       [Response ''s1'' ''u1'' (Deny ''no''), Response ''s1'' ''u1'' (Allow JNull),
        Elapse 100000])) =
     (False, broker_run ([] @ Request (Some ''s1'') ''s1'' ''u1'' #
       [Response ''s1'' ''u1'' (Deny ''no''), Response ''s1'' ''u1'' (Allow JNull),
        Elapse 100000]))"
proof -
  let ?tr = "[] @ Request (Some ''s1'') ''s1'' ''u1'' #
       [Response ''s1'' ''u1'' (Deny ''no''), Response ''s1'' ''u1'' (Allow JNull),
        Elapse 100000]"
  have h1: "distinct (requested ?tr)" by simp
  have h2: "0 = next_handle (broker_run [])"
    by (simp add: broker_run_def empty_broker_def)
  have h3: "broker_run ?tr = broker_run ?tr" by (rule refl)
  have d: "decision (broker_run ?tr) 0 = Some (Deny ''no'')"
    by (simp add: broker_eval)
  from approval_settled_once [OF h1 h2 h3] d h1 h2 show ?thesis by metis
qed

section \<open>An approval without an answer is denied when its time is up\<close>

text \<open>
  C4. Take a history of the broker in which the identifiers given to requests are pairwise
  distinct, and in it the request for the pair \<open>(sid, rid)\<close>, whose promise is \<open>h\<close>, followed by
  events among which no caller answers the pair and during which the window of
  \<^const>\<open>approval_timeout\<close> milliseconds (100 seconds) passes, followed by any further events.
  Then the promise holds the decision to deny with the message that the request timed out,
  the registry has no entry for the pair, and every call of \<^const>\<open>handlePermissionResponse\<close>
  for the pair returns false and changes nothing.
\<close>

theorem approval_times_out:
  assumes "distinct (requested (evs @ Request resume sid rid # quiet @ later))"
    and "answers sid rid quiet = []"
    and "approval_timeout \<le> elapsed quiet"
    and "h = next_handle (broker_run evs)"
    and "b = broker_run (evs @ Request resume sid rid # quiet @ later)"
  shows "decision b h = Some (Deny ''Permission request timed out'') \<and>
         find_pending (pendingPermissionRequests b) sid rid = None \<and>
         (\<forall>r. handlePermissionResponse sid rid r b = (False, b))"
proof -
  let ?deny = "Deny ''Permission request timed out''"
  let ?b0 = "broker_run evs"
  let ?b2 = "broker_run (evs @ Request resume sid rid # quiet)"
  let ?D = "clock ?b0 + approval_timeout"
  have "requested (evs @ Request resume sid rid # quiet @ later) =
        requested (evs @ Request resume sid rid # quiet) @ requested later"
    using requested_append [of "evs @ Request resume sid rid # quiet" later] by simp
  with assms(1) have dq: "distinct (requested (evs @ Request resume sid rid # quiet))" by simp
  have a2: "approval_state h sid rid ?D {?deny} ?b2"
    using approval_tracked [OF dq] assms(2,4) by simp
  have i2: "broker_inv ?b2" by (rule broker_inv_run)
  have "?b2 = fold broker_step (Request resume sid rid # quiet) ?b0"
    using broker_run_append [of evs "Request resume sid rid # quiet"] by simp
  then have "clock ?b2 = clock ?b0 + elapsed (Request resume sid rid # quiet)"
    by (simp only: steps_clock)
  with assms(3) have late: "?D \<le> clock ?b2" by simp
  have nt: "h \<notin> fst ` set (timers ?b2)"
  proof
    assume "h \<in> fst ` set (timers ?b2)"
    then obtain tm where m: "(h, tm) \<in> set (timers ?b2)" by auto
    from approval_stateD(4) [OF a2 m] have "due tm = ?D" .
    moreover from no_overdue_run [of "evs @ Request resume sid rid # quiet"] m
    have "clock ?b2 < due tm" unfolding no_overdue_def by blast
    ultimately show False using late by simp
  qed
  with approval_stateD(5) [OF a2] have "decision ?b2 h = Some ?deny"
    by (auto simp add: decision_def)
  then have "decision (fold broker_step later ?b2) h = Some ?deny"
    by (rule decision_stable)
  moreover have "b = fold broker_step later ?b2"
    unfolding assms(5) using broker_run_append [of "evs @ Request resume sid rid # quiet" later]
    by simp
  ultimately have s: "decision b h = Some ?deny" by simp
  have i: "broker_inv b" unfolding assms(5) by (rule broker_inv_run)
  note a = approval_tracked [OF assms(1), folded assms(4,5)]
  from approval_decided [OF a i s] s show ?thesis by blast
qed

text \<open>
  A request that nobody answers for 100 seconds, while another request is made; the
  answer that comes afterwards is turned away.
\<close>

theorem approval_times_out_witness:
  "distinct (requested ([] @ Request (Some ''s1'') ''s1'' ''u1'' #
       [Elapse 60000, Request (Some ''s1'') ''s1'' ''u2'', Elapse 40000] @
       [Response ''s1'' ''u1'' (Allow JNull)])) \<and>
   answers ''s1'' ''u1'' [Elapse 60000, Request (Some ''s1'') ''s1'' ''u2'', Elapse 40000] = [] \<and>
   approval_timeout \<le> elapsed [Elapse 60000, Request (Some ''s1'') ''s1'' ''u2'', Elapse 40000] \<and>
   next_handle (broker_run []) = 0 \<and>
   decision (broker_run ([] @ Request (Some ''s1'') ''s1'' ''u1'' #
       [Elapse 60000, Request (Some ''s1'') ''s1'' ''u2'', Elapse 40000] @
       [Response ''s1'' ''u1'' (Allow JNull)])) 0 =
     Some (Deny ''Permission request timed out'') \<and>
   handlePermissionResponse ''s1'' ''u1'' (Allow JNull)
     (broker_run ([] @ Request (Some ''s1'') ''s1'' ''u1'' #
       [Elapse 60000, Request (Some ''s1'') ''s1'' ''u2'', Elapse 40000] @
       [Response ''s1'' ''u1'' (Allow JNull)])) =
     (False, broker_run ([] @ Request (Some ''s1'') ''s1'' ''u1'' #
       [Elapse 60000, Request (Some ''s1'') ''s1'' ''u2'', Elapse 40000] @
       [Response ''s1'' ''u1'' (Allow JNull)]))"
proof -
  let ?quiet = "[Elapse 60000, Request (Some ''s1'') ''s1'' ''u2'', Elapse 40000]"
  let ?later = "[Response ''s1'' ''u1'' (Allow JNull)]"
  let ?tr = "[] @ Request (Some ''s1'') ''s1'' ''u1'' # ?quiet @ ?later"
  have h1: "distinct (requested ?tr)" by simp
  have h2: "answers ''s1'' ''u1'' ?quiet = []" by simp
  have h3: "approval_timeout \<le> elapsed ?quiet" by (simp add: approval_timeout_def)
  have h4: "0 = next_handle (broker_run [])"
    by (simp add: broker_run_def empty_broker_def)
  have h5: "broker_run ?tr = broker_run ?tr" by (rule refl)
  from approval_times_out [OF h1 h2 h3 h4 h5] h1 h2 h3 h4 show ?thesis by metis
qed

end
